theory Spec2Isabelle
  imports Complex_Main "HOL-Library.FSet"
begin

section \<open>Data model of \<^verbatim>\<open>wsic/readers.py\<close>\<close>

text \<open>
  The theory embeds the tile pipeline of \<^verbatim>\<open>src/wsic/readers.py\<close>: the worker
  function \<^verbatim>\<open>get_tile\<close> and the class \<^verbatim>\<open>MultiProcessTileIterator\<close> with its
  methods \<^verbatim>\<open>__init__\<close>, \<^verbatim>\<open>__iter__\<close>, \<^verbatim>\<open>__next__\<close>, \<^verbatim>\<open>empty_queue\<close> and
  \<^verbatim>\<open>fill_queue\<close>.

  Python integers are \<open>int\<close>. A pixel array (\<^verbatim>\<open>np.ndarray\<close> of shape rows x columns x
  samples) is a list of rows, each a list of pixels, each a list of samples. Exceptions
  are values of the type \<open>error\<close>.
\<close>

datatype value_error = NegativeDimensions | IntermediateRequired | CouldNotBroadcast

datatype error =
    ZeroDivisionError
  | ValueError value_error
  | KeyError "int \<times> int"
  | OSError

type_synonym coord = "int \<times> int"
type_synonym slice = "int \<times> int"
type_synonym index = "slice \<times> slice"
type_synonym ndarray = "nat list list list"

subsection \<open>Array slicing\<close>

text \<open>
  \<^verbatim>\<open>a[start:stop]\<close> with step 1: a negative bound counts from the end, and both bounds
  are clipped to the length (Python's \<^verbatim>\<open>slice.indices\<close>).
\<close>

definition clip_bound :: "nat \<Rightarrow> int \<Rightarrow> nat" where
  "clip_bound n x = nat (if x < 0 then max 0 (x + int n) else min x (int n))"

definition slice_list :: "slice \<Rightarrow> 'a list \<Rightarrow> 'a list" where
  "slice_list s xs =
     (let a = clip_bound (length xs) (fst s); b = clip_bound (length xs) (snd s)
      in take (b - a) (drop a xs))"

text \<open>\<^verbatim>\<open>array[index]\<close> for an index of two slices (rows, columns).\<close>

definition numpy_getitem :: "ndarray \<Rightarrow> index \<Rightarrow> ndarray" where
  "numpy_getitem a idx = map (slice_list (snd idx)) (slice_list (fst idx) a)"

text \<open>
  \<^verbatim>\<open>xs[start:stop] = ys\<close> on one axis of an array: the region keeps its length, so the
  assigned values must have the region's length (numpy refuses to broadcast otherwise).
\<close>

definition slice_assign :: "slice \<Rightarrow> 'a list \<Rightarrow> 'a list \<Rightarrow> 'a list option" where
  "slice_assign s xs ys =
     (let a = clip_bound (length xs) (fst s); b = max a (clip_bound (length xs) (snd s))
      in if length ys = b - a then Some (take a xs @ ys @ drop b xs) else None)"

definition numpy_setitem :: "ndarray \<Rightarrow> index \<Rightarrow> ndarray \<Rightarrow> error + ndarray" where
  "numpy_setitem a idx tile =
     (let r0 = clip_bound (length a) (fst (fst idx));
          r1 = max r0 (clip_bound (length a) (snd (fst idx)));
          rows = map2 (slice_assign (snd idx)) (take (r1 - r0) (drop r0 a)) tile
      in if length tile \<noteq> r1 - r0 \<or> None \<in> set rows
         then Inl (ValueError CouldNotBroadcast)
         else Inr (take r0 a @ map the rows @ drop r1 a))"

text \<open>\<^verbatim>\<open>np.count_nonzero(tile)\<close>: the number of non-zero samples.\<close>

definition count_nonzero :: "ndarray \<Rightarrow> nat" where
  "count_nonzero a = length (filter (\<lambda>s. s \<noteq> 0) (concat (concat a)))"

text \<open>\<^verbatim>\<open>tile.shape[0]\<close> and \<^verbatim>\<open>tile.shape[1]\<close>; an array without rows has width 0 here.\<close>

definition array_shape :: "ndarray \<Rightarrow> nat \<times> nat \<times> nat" where
  "array_shape a =
     (length a,
      (case a of [] \<Rightarrow> 0 | r # _ \<Rightarrow> length r),
      (case a of [] \<Rightarrow> 0 | [] # _ \<Rightarrow> 0 | (p # _) # _ \<Rightarrow> length p))"

subsection \<open>Readers\<close>

text \<open>
  A \<^verbatim>\<open>Reader\<close> has a shape and \<^verbatim>\<open>__getitem__\<close>, which may raise. \<^verbatim>\<open>TIFFReader\<close> holds
  the page as an array and indexes it: \<^verbatim>\<open>return self.array[index]\<close>.
\<close>

record Reader =
  rshape :: "nat \<times> nat \<times> nat"
  getitem :: "index \<Rightarrow> error + ndarray"

definition TIFFReader :: "ndarray \<Rightarrow> Reader" where
  "TIFFReader array =
     \<lparr>rshape = array_shape array, getitem = (\<lambda>index. Inr (numpy_getitem array index))\<rparr>"

subsection \<open>The tile grid\<close>

text \<open>
  \<^verbatim>\<open>int(np.ceil(a / b))\<close>. Python's \<^verbatim>\<open>/\<close> on integers raises \<^verbatim>\<open>ZeroDivisionError\<close> for
  a zero divisor. The quotient is taken exactly here; the floating-point quotient of the
  source has the same ceiling for all operands below \<open>2 ^ 53\<close>.
\<close>

definition ceil_div :: "int \<Rightarrow> int \<Rightarrow> error + int" where
  "ceil_div a b =
     (if b = 0 then Inl ZeroDivisionError else Inr \<lceil>real_of_int a / real_of_int b\<rceil>)"

text \<open>
  Lines 138-145: the grid of a tile size \<^verbatim>\<open>(width, height)\<close> over a frame shape
  \<^verbatim>\<open>(H, W, C)\<close> is \<^verbatim>\<open>(ceil(shape[0] / tile_size[1]), ceil(shape[1] / tile_size[0]))\<close>.
\<close>

definition tiles_shape :: "nat \<times> nat \<times> nat \<Rightarrow> int \<times> int \<Rightarrow> error + int \<times> int" where
  "tiles_shape shp tile_size =
     (case ceil_div (int (fst shp)) (snd tile_size) of
        Inl e \<Rightarrow> Inl e
      | Inr rows \<Rightarrow>
          (case ceil_div (int (fst (snd shp))) (fst tile_size) of
             Inl e \<Rightarrow> Inl e
           | Inr cols \<Rightarrow> Inr (rows, cols)))"

text \<open>
  \<^verbatim>\<open>list(np.ndindex(shape))\<close>: the coordinates of the grid in row-major order; numpy
  refuses a negative dimension.
\<close>

definition row_major :: "int \<times> int \<Rightarrow> coord list" where
  "row_major shp = List.product [0..fst shp - 1] [0..snd shp - 1]"

definition ndindex :: "int \<times> int \<Rightarrow> error + coord list" where
  "ndindex shp =
     (if fst shp < 0 \<or> snd shp < 0 then Inl (ValueError NegativeDimensions)
      else Inr (row_major shp))"

subsection \<open>The iterator object\<close>

text \<open>
  The fields of \<^verbatim>\<open>MultiProcessTileIterator\<close>, in the order \<^verbatim>\<open>__init__\<close> sets them. The
  last field is not an attribute of the object: it lists the worker processes that
  \<^verbatim>\<open>fill_queue\<close> has started and that have not finished yet, in the order they were
  started.
\<close>

record iterator =
  reader :: Reader
  shape :: "nat \<times> nat \<times> nat"
  read_tile_size :: "int \<times> int"
  yield_tile_size :: "int \<times> int"
  intermediate :: "ndarray option"
  verbose :: bool
  queue :: "(coord \<times> ndarray) list"
  enqueued :: "coord fset"
  reordering_dict :: "coord \<rightharpoonup> ndarray"
  read_j :: int
  read_i :: int
  yield_i :: int
  yield_j :: int
  num_workers :: int
  read_tiles_shape :: "int \<times> int"
  yield_tile_shape :: "int \<times> int"
  remaining_reads :: "coord list"
  processes :: "coord list"

text \<open>
  \<^verbatim>\<open>__init__\<close> (lines 114-155). \<^verbatim>\<open>yield_tile_size or read_tile_size\<close> takes the read
  tile size when none is given; \<^verbatim>\<open>num_workers or os.cpu_count() or 2\<close> skips a
  \<^verbatim>\<open>None\<close> and a zero. The grids are computed, then the remaining reads, and only then
  the tile sizes are validated. An intermediate store that is given counts as true.
\<close>

definition default_workers :: "int option \<Rightarrow> nat option \<Rightarrow> int" where
  "default_workers nw cpu_count =
     (let fallback = (case cpu_count of None \<Rightarrow> 2 | Some c \<Rightarrow> if c = 0 then 2 else int c)
      in case nw of None \<Rightarrow> fallback | Some n \<Rightarrow> if n = 0 then fallback else n)"

definition init ::
  "Reader \<Rightarrow> int \<times> int \<Rightarrow> (int \<times> int) option \<Rightarrow> int option \<Rightarrow> ndarray option \<Rightarrow> bool \<Rightarrow>
   nat option \<Rightarrow> error + iterator" where
  "init rdr rts yts nw im vb cpu_count =
     (let yts' = (case yts of None \<Rightarrow> rts | Some y \<Rightarrow> y) in
      case tiles_shape (rshape rdr) rts of
        Inl e \<Rightarrow> Inl e
      | Inr rgrid \<Rightarrow>
          (case tiles_shape (rshape rdr) yts' of
             Inl e \<Rightarrow> Inl e
           | Inr ygrid \<Rightarrow>
               (case ndindex rgrid of
                  Inl e \<Rightarrow> Inl e
                | Inr todo \<Rightarrow>
                    if rts \<noteq> yts' \<and> im = None then Inl (ValueError IntermediateRequired)
                    else Inr \<lparr>reader = rdr, shape = rshape rdr, read_tile_size = rts,
                           yield_tile_size = yts', intermediate = im, verbose = vb,
                           queue = [], enqueued = {||}, reordering_dict = Map.empty,
                           read_j = 0, read_i = 0, yield_i = 0, yield_j = 0,
                           num_workers = default_workers nw cpu_count,
                           read_tiles_shape = rgrid, yield_tile_shape = ygrid,
                           remaining_reads = todo, processes = []\<rparr>)))"

text \<open>\<^verbatim>\<open>__iter__\<close> (lines 161-165).\<close>

definition iter :: "iterator \<Rightarrow> iterator" where
  "iter st = st\<lparr>read_j := 0, read_i := 0\<rparr>"

subsection \<open>Workers and the result queue\<close>

text \<open>
  The pixel window of tile \<^verbatim>\<open>(j, i)\<close> for a tile size \<^verbatim>\<open>(width, height)\<close>, as
  \<^verbatim>\<open>get_tile\<close> (lines 76-79) and the read from the intermediate (lines 219-228) build it.
\<close>

definition tile_index :: "int \<times> int \<Rightarrow> coord \<Rightarrow> index" where
  "tile_index tilesize ji =
     ((fst ji * snd tilesize, (fst ji + 1) * snd tilesize),
      (snd ji * fst tilesize, (snd ji + 1) * fst tilesize))"

text \<open>
  \<^verbatim>\<open>get_tile\<close> (lines 51-84) runs in a process of its own. It opens the file again
  (the reader of the same file), reads the tile and puts \<^verbatim>\<open>(ji, tile)\<close> on the queue.
  When the read raises, the exception ends the worker process and nothing is put on the
  queue: the result is the error and the queue is as it was.
\<close>

definition get_tile ::
  "(coord \<times> ndarray) list \<Rightarrow> coord \<Rightarrow> int \<times> int \<Rightarrow> Reader \<Rightarrow> error + (coord \<times> ndarray) list" where
  "get_tile q ji tilesize rdr =
     (case getitem rdr (tile_index tilesize ji) of
        Inl e \<Rightarrow> Inl e
      | Inr tile \<Rightarrow> Inr (q @ [(ji, tile)]))"

text \<open>
  One event of the environment: a started worker process runs to its end. The number
  picks the process among those still running (modulo their count); with no process
  running nothing happens. The parent sees only what the worker put on the queue.
\<close>

definition worker_finishes :: "nat \<Rightarrow> iterator \<Rightarrow> iterator" where
  "worker_finishes n st =
     (if processes st = [] then st
      else
        (let k = n mod length (processes st);
             ji = processes st ! k;
             st1 = st\<lparr>processes := take k (processes st) @ drop (Suc k) (processes st)\<rparr>
         in case get_tile (queue st) ji (read_tile_size st) (reader st) of
              Inl e \<Rightarrow> st1
            | Inr q \<Rightarrow> st1\<lparr>queue := q\<rparr>))"

text \<open>\<^verbatim>\<open>empty_queue\<close> (lines 240-244): every queued result goes into the dictionary.\<close>

fun drain :: "(coord \<times> ndarray) list \<Rightarrow> (coord \<rightharpoonup> ndarray) \<Rightarrow> (coord \<rightharpoonup> ndarray)" where
  "drain [] d = d"
| "drain ((ji, tile) # q) d = drain q (d(ji \<mapsto> tile))"

definition empty_queue :: "iterator \<Rightarrow> iterator" where
  "empty_queue st = st\<lparr>reordering_dict := drain (queue st) (reordering_dict st), queue := []\<rparr>"

text \<open>
  \<^verbatim>\<open>fill_queue\<close> (lines 246-260): while fewer than \<^verbatim>\<open>num_workers\<close> coordinates are
  enqueued and reads remain, pop the first remaining read, start a process for it and add
  it to \<^verbatim>\<open>enqueued\<close>.
\<close>

function fill_queue :: "iterator \<Rightarrow> iterator" where
  "fill_queue st =
     (if int (fcard (enqueued st)) < num_workers st \<and> 0 < length (remaining_reads st)
      then
        (let next_ji = hd (remaining_reads st)
         in fill_queue (st\<lparr>remaining_reads := tl (remaining_reads st),
                            processes := processes st @ [next_ji],
                            enqueued := finsert next_ji (enqueued st)\<rparr>))
      else st)"
  by pat_completeness auto
termination
  by (relation "measure (\<lambda>st. length (remaining_reads st))") auto

declare fill_queue.simps [simp del]

subsection \<open>\<^verbatim>\<open>__next__\<close>\<close>

datatype outcome = Tile ndarray | StopIteration | Raised error | Polling

text \<open>
  Lines 169-180: both cursors wrap to the next row at the end of a row. (The message
  printed under \<^verbatim>\<open>verbose\<close> changes nothing and is left out.)
\<close>

definition advance :: "iterator \<Rightarrow> iterator" where
  "advance st =
     (let st1 = (if read_i st \<ge> snd (read_tiles_shape st)
                 then st\<lparr>read_i := 0, read_j := read_j st + 1\<rparr> else st)
      in if yield_i st1 \<ge> snd (yield_tile_shape st1)
         then st1\<lparr>yield_i := 0, yield_j := yield_j st1 + 1\<rparr> else st1)"

text \<open>
  Lines 204-213: where a read tile is written in the intermediate; the extent is the
  tile's own shape.
\<close>

definition write_index :: "iterator \<Rightarrow> ndarray \<Rightarrow> index" where
  "write_index st tile =
     ((read_j st * snd (read_tile_size st),
       read_j st * snd (read_tile_size st) + int (fst (array_shape tile))),
      (read_i st * fst (read_tile_size st),
       read_i st * fst (read_tile_size st) + int (fst (snd (array_shape tile)))))"

text \<open>
  Lines 193-215. \<open>Inl\<close> leaves \<^verbatim>\<open>__next__\<close> (a returned tile or a raised error), \<open>Inr\<close>
  goes on in the loop body. \<^verbatim>\<open>set.remove\<close> raises \<^verbatim>\<open>KeyError\<close> for a missing element.
\<close>

definition take_read :: "iterator \<Rightarrow> (outcome \<times> iterator) + iterator" where
  "take_read st =
     (let key = (read_j st, read_i st) in
      case reordering_dict st key of
        None \<Rightarrow> Inr st
      | Some tile \<Rightarrow>
          if key |\<notin>| enqueued st then Inl (Raised (KeyError key), st)
          else
            (let st1 = st\<lparr>enqueued := enqueued st |-| {|key|},
                          reordering_dict := (reordering_dict st)(key := None)\<rparr>
             in case intermediate st1 of
                  None \<Rightarrow> Inl (Tile tile, st1\<lparr>read_i := read_i st1 + 1, yield_i := yield_i st1 + 1\<rparr>)
                | Some store \<Rightarrow>
                    (case numpy_setitem store (write_index st1 tile) tile of
                       Inl e \<Rightarrow> Inl (Raised e, st1)
                     | Inr store' \<Rightarrow>
                         Inr (st1\<lparr>intermediate := Some store', read_i := read_i st1 + 1\<rparr>))))"

text \<open>Lines 217-232: the window of the yield cursor, returned when it counts a non-zero sample.\<close>

definition yield_window :: "iterator \<Rightarrow> (outcome \<times> iterator) + iterator" where
  "yield_window st =
     (case intermediate st of
        None \<Rightarrow> Inr st
      | Some store \<Rightarrow>
          (let tile = numpy_getitem store (tile_index (yield_tile_size st) (yield_j st, yield_i st))
           in if count_nonzero tile > 0 then Inl (Tile tile, st\<lparr>yield_i := yield_i st + 1\<rparr>)
              else Inr st))"

text \<open>
  The \<^verbatim>\<open>while True\<close> loop (lines 188-238). Each round of the loop begins with the
  workers that finished since the round before, given by the schedule; the loop may run
  forever, so the schedule is also its fuel, and \<open>Polling\<close> says that the loop was
  still waiting when the schedule ended. \<^verbatim>\<open>time.sleep(0.1)\<close> only lets time pass.
\<close>

fun next_loop :: "iterator \<Rightarrow> nat list list \<Rightarrow> outcome \<times> iterator" where
  "next_loop st [] = (Polling, st)"
| "next_loop st (finished # sched) =
     (case take_read (empty_queue (fold worker_finishes finished st)) of
        Inl r \<Rightarrow> r
      | Inr st1 \<Rightarrow>
          (case yield_window st1 of
             Inl r \<Rightarrow> r
           | Inr st2 \<Rightarrow> next_loop (fill_queue st2) sched))"

definition next_tile :: "iterator \<Rightarrow> nat list list \<Rightarrow> outcome \<times> iterator" where
  "next_tile st sched =
     (let st1 = advance st
      in if yield_j st1 \<ge> fst (yield_tile_shape st1) then (StopIteration, st1)
         else next_loop (fill_queue st1) sched)"

text \<open>
  A \<^verbatim>\<open>for\<close> loop over the iterator: \<^verbatim>\<open>__next__\<close> is called until it does not return a
  tile. Each call has a schedule of its own; the events between two calls are seen in the
  first round of the later call. A yielded tile is listed with the yield-grid coordinate
  it was returned for: the yield cursor, which the return has advanced by one column.
  The second component is the outcome that ended the loop, or \<open>None\<close> when the list of
  schedules ended first.
\<close>

fun iterate ::
  "iterator \<Rightarrow> nat list list list \<Rightarrow> (coord \<times> ndarray) list \<times> outcome option \<times> iterator" where
  "iterate st [] = ([], None, st)"
| "iterate st (sched # scheds) =
     (case next_tile st sched of
        (Tile t, st') \<Rightarrow>
          (case iterate st' scheds of
             (ys, r) \<Rightarrow> (((yield_j st', yield_i st' - 1), t) # ys, r))
      | (out, st') \<Rightarrow> ([], Some out, st'))"

text \<open>
  Reassembling the tiles that an iteration yields, in the order it yields them, for a
  grid of \<open>cols\<close> columns: the tiles of one grid row side by side (\<^verbatim>\<open>np.hstack\<close>), the
  grid rows below each other.
\<close>

fun hstack :: "ndarray list \<Rightarrow> ndarray" where
  "hstack [] = []"
| "hstack [t] = t"
| "hstack (t # ts) = map2 (@) t (hstack ts)"

fun chunks :: "nat \<Rightarrow> 'a list \<Rightarrow> 'a list list" where
  "chunks n [] = []"
| "chunks n (x # xs) =
     (if n = 0 then [] else take n (x # xs) # chunks n (drop n (x # xs)))"

definition reassemble :: "nat \<Rightarrow> ndarray list \<Rightarrow> ndarray" where
  "reassemble cols tiles = concat (map hstack (chunks cols tiles))"

subsection \<open>Reachable states, and what is stated about them\<close>

text \<open>
  The states an iterator object goes through: every method, and every phase of the body
  of \<^verbatim>\<open>__next__\<close>, is a step, and so is every worker that finishes.
\<close>

inductive reachable :: "iterator \<Rightarrow> iterator \<Rightarrow> bool" for st0 :: iterator where
  start: "reachable st0 st0"
| iter: "reachable st0 st \<Longrightarrow> reachable st0 (iter st)"
| advance: "reachable st0 st \<Longrightarrow> reachable st0 (advance st)"
| fill_queue: "reachable st0 st \<Longrightarrow> reachable st0 (fill_queue st)"
| worker_finishes: "reachable st0 st \<Longrightarrow> reachable st0 (worker_finishes n st)"
| empty_queue: "reachable st0 st \<Longrightarrow> reachable st0 (empty_queue st)"
| take_read_on: "reachable st0 st \<Longrightarrow> take_read st = Inr st' \<Longrightarrow> reachable st0 st'"
| take_read_out: "reachable st0 st \<Longrightarrow> take_read st = Inl (out, st') \<Longrightarrow> reachable st0 st'"
| yield_window_on: "reachable st0 st \<Longrightarrow> yield_window st = Inr st' \<Longrightarrow> reachable st0 st'"
| yield_window_out: "reachable st0 st \<Longrightarrow> yield_window st = Inl (out, st') \<Longrightarrow> reachable st0 st'"

text \<open>
  Every coordinate is in at most one place: a running worker, the queue, the dictionary
  or the remaining reads; and whatever has been dispatched and not yet taken out of the
  dictionary is in \<^verbatim>\<open>enqueued\<close>.
\<close>

definition placed_once ::
  "coord list \<Rightarrow> coord list \<Rightarrow> coord list \<Rightarrow> coord set \<Rightarrow> coord set \<Rightarrow> bool" where
  "placed_once running queued remaining keys pending \<longleftrightarrow>
     distinct (running @ queued @ remaining)
   \<and> keys \<inter> set (running @ queued @ remaining) = {}
   \<and> set running \<union> set queued \<union> keys \<subseteq> pending"

definition dispatch_inv :: "iterator \<Rightarrow> bool" where
  "dispatch_inv st \<longleftrightarrow>
     placed_once (processes st) (map fst (queue st)) (remaining_reads st)
       (dom (reordering_dict st)) (fset (enqueued st))"

text \<open>Every result on the queue or in the dictionary is what the reader returned for its tile.\<close>

definition results_inv :: "iterator \<Rightarrow> bool" where
  "results_inv st \<longleftrightarrow>
     (\<forall>r \<in> set (queue st).
         getitem (reader st) (tile_index (read_tile_size st) (fst r)) = Inr (snd r))
   \<and> (\<forall>ji t. reordering_dict st ji = Some t \<longrightarrow>
         getitem (reader st) (tile_index (read_tile_size st) ji) = Inr t)"

text \<open>
  The coordinates of a grid in row-major order from a cursor \<open>(j, i)\<close> on; the cursor
  may stand behind the last column of its row.
\<close>

definition row_major_from :: "int \<times> int \<Rightarrow> coord \<Rightarrow> coord list" where
  "row_major_from grid cur =
     (if fst cur < fst grid
      then map (Pair (fst cur)) [snd cur..snd grid - 1]
           @ List.product [fst cur + 1..fst grid - 1] [0..snd grid - 1]
      else [])"

text \<open>
  Without an intermediate the read cursor and the yield cursor move together over one
  grid.
\<close>

definition lockstep :: "iterator \<Rightarrow> bool" where
  "lockstep st \<longleftrightarrow>
     intermediate st = None \<and> read_tiles_shape st = yield_tile_shape st
   \<and> read_j st = yield_j st \<and> read_i st = yield_i st"

text \<open>
  The coordinates from the read cursor on are, in row-major order, first those in
  \<^verbatim>\<open>enqueued\<close> and then the remaining reads; and every enqueued coordinate is held by a
  running worker, the queue or the dictionary.
\<close>

definition pending_from_cursor :: "iterator \<Rightarrow> bool" where
  "pending_from_cursor st \<longleftrightarrow>
     (\<exists>pend. fset (enqueued st) = set pend
        \<and> pend @ remaining_reads st
            = row_major_from (read_tiles_shape st) (read_j st, read_i st))
   \<and> fset (enqueued st)
        \<subseteq> set (processes st) \<union> set (map fst (queue st)) \<union> dom (reordering_dict st)"

text \<open>
  A schedule for one call of \<^verbatim>\<open>__next__\<close> under which the call cannot starve: in each of
  its rounds at least one running worker finishes (when one is running), and it has at
  least \<open>n\<close> rounds. Which workers finish, and in which order, is free.
\<close>

definition fair :: "nat \<Rightarrow> nat list list \<Rightarrow> bool" where
  "fair n sched \<longleftrightarrow> n \<le> length sched \<and> [] \<notin> set sched"

text \<open>A reader whose \<^verbatim>\<open>__getitem__\<close> never raises, as \<^verbatim>\<open>TIFFReader\<close>.\<close>

definition always_reads :: "Reader \<Rightarrow> bool" where
  "always_reads rdr \<longleftrightarrow> (\<forall>index. \<exists>tile. getitem rdr index = Inr tile)"

text \<open>What holds between two calls of \<^verbatim>\<open>__next__\<close> of an iterator without intermediate.\<close>

definition in_step :: "iterator \<Rightarrow> bool" where
  "in_step st \<longleftrightarrow>
     lockstep st \<and> dispatch_inv st \<and> results_inv st \<and> pending_from_cursor st
   \<and> int (fcard (enqueued st)) \<le> num_workers st
   \<and> always_reads (reader st) \<and> 0 < num_workers st \<and> 0 < snd (read_tiles_shape st)"

section \<open>Properties of the tile grid\<close>

lemma ceil_div_positive:
  assumes "0 < b"
  shows "\<exists>q. ceil_div a b = Inr q \<and> a \<le> q * b \<and> (q - 1) * b < a"
proof -
  let ?q = "- (- a div b)"
  have eq: "\<lceil>real_of_int a / real_of_int b\<rceil> = ?q"
    by (rule ceiling_divide_eq_div)
  have m0: "0 \<le> (- a) mod b" and m1: "(- a) mod b < b"
    using assms by simp_all
  have "b * (- a div b) = - a - (- a) mod b"
    using mult_div_mod_eq [of b "- a"] by linarith
  then have qb: "?q * b = a + (- a) mod b"
    by (simp add: mult.commute)
  have up: "a \<le> ?q * b" using qb m0 by linarith
  have "(?q - 1) * b = ?q * b - b" by (simp add: algebra_simps)
  then have low: "(?q - 1) * b < a" using qb m1 by linarith
  show ?thesis using assms eq up low by (simp add: ceil_div_def)
qed

lemma tiles_shape_eq:
  "tiles_shape (H, W, C) ts =
     (if snd ts = 0 \<or> fst ts = 0 then Inl ZeroDivisionError
      else Inr (\<lceil>real H / real_of_int (snd ts)\<rceil>, \<lceil>real W / real_of_int (fst ts)\<rceil>))"
  by (simp add: tiles_shape_def ceil_div_def)

lemma init_grids:
  assumes "init rdr rts yts nw im vb cpu = Inr st"
  shows "tiles_shape (rshape rdr) rts = Inr (read_tiles_shape st)"
    and "tiles_shape (rshape rdr) (case yts of None \<Rightarrow> rts | Some y \<Rightarrow> y) = Inr (yield_tile_shape st)"
  using assms
  by (auto simp: init_def Let_def split: sum.splits if_splits)



text \<open>
  Claim C9, as the code has it. The grid computation is a function of the frame shape
  and the tile size, and it fails exactly when a tile dimension is zero, with the
  \<^verbatim>\<open>ZeroDivisionError\<close> of the division. No tile size is rejected for being negative: a
  negative tile dimension gives the ceiling of a non-positive quotient.
\<close>

theorem grid_fails_only_on_zero_tile_dimension:
  "tiles_shape (H, W, C) ts =
     (if snd ts = 0 \<or> fst ts = 0 then Inl ZeroDivisionError
      else Inr (\<lceil>real H / real_of_int (snd ts)\<rceil>, \<lceil>real W / real_of_int (fst ts)\<rceil>))"
  by (rule tiles_shape_eq)

text \<open>
  A frame of 3 x 3 pixels and the tile size \<open>(-5, -5)\<close>: the grid is computed, it is
  \<open>(0, 0)\<close>, and the list of remaining reads is built from it (the empty list).
\<close>

theorem negative_tile_size_not_rejected:
  "tiles_shape (3, 3, 3) (- 5, - 5) = Inr (0, 0) \<and> ndindex (0, 0) = Inr []"
  by (simp add: tiles_shape_eq ndindex_def row_major_def)

section \<open>Construction\<close>

lemma init_positive:
  assumes "0 < fst rts" and "0 < snd rts" and "0 < fst y" and "0 < snd y"
    and that: "yts = None \<or> yts = Some y"
  shows "init rdr rts yts nw im vb cpu =
           (let yts' = (case yts of None \<Rightarrow> rts | Some y \<Rightarrow> y) in
            if rts \<noteq> yts' \<and> im = None then Inl (ValueError IntermediateRequired)
            else Inr \<lparr>reader = rdr, shape = rshape rdr, read_tile_size = rts,
                   yield_tile_size = yts', intermediate = im, verbose = vb,
                   queue = [], enqueued = {||}, reordering_dict = Map.empty,
                   read_j = 0, read_i = 0, yield_i = 0, yield_j = 0,
                   num_workers = default_workers nw cpu,
                   read_tiles_shape = (\<lceil>real (fst (rshape rdr)) / real_of_int (snd rts)\<rceil>,
                                       \<lceil>real (fst (snd (rshape rdr))) / real_of_int (fst rts)\<rceil>),
                   yield_tile_shape = (\<lceil>real (fst (rshape rdr)) / real_of_int (snd yts')\<rceil>,
                                       \<lceil>real (fst (snd (rshape rdr))) / real_of_int (fst yts')\<rceil>),
                   remaining_reads =
                     row_major (\<lceil>real (fst (rshape rdr)) / real_of_int (snd rts)\<rceil>,
                                \<lceil>real (fst (snd (rshape rdr))) / real_of_int (fst rts)\<rceil>),
                   processes = []\<rparr>)"
proof -
  obtain H W C where shp: "rshape rdr = (H, W, C)" by (cases "rshape rdr") auto
  define yts' where "yts' = (case yts of None \<Rightarrow> rts | Some y \<Rightarrow> y)"
  have pos: "0 < fst yts'" "0 < snd yts'"
    using that assms by (auto simp: yts'_def)
  have "0 \<le> real H / real_of_int (snd rts)" "0 \<le> real W / real_of_int (fst rts)"
    using assms(1,2) by simp_all
  then have nn: "- 1 < real H / real_of_int (snd rts)" "- 1 < real W / real_of_int (fst rts)"
    by linarith+
  show ?thesis
    using assms(1,2) pos nn
    unfolding init_def yts'_def [symmetric] shp Let_def
    by (simp add: tiles_shape_eq ndindex_def)
qed

text \<open>
  Claim C5. Construction fails with the configuration error (the \<^verbatim>\<open>ValueError\<close> of line
  150) if and only if the read tile size differs from the yield tile size and no
  intermediate is given. Whenever the sizes differ and no intermediate is given, no
  iterator is returned. When no yield tile size is given it is the read tile size, and
  construction without an intermediate succeeds. The equivalence is stated for tile sizes
  with positive width and height, for which the grid computation that precedes the
  validation does not fail; the two implications before it hold for every tile size.
\<close>

theorem construction_fails_iff_sizes_differ_without_intermediate:
  "(rts \<noteq> (case yts of None \<Rightarrow> rts | Some y \<Rightarrow> y) \<and> im = None
      \<longrightarrow> (\<forall>st. init rdr rts yts nw im vb cpu \<noteq> Inr st))
   \<and> (init rdr rts yts nw im vb cpu = Inl (ValueError IntermediateRequired)
      \<longrightarrow> rts \<noteq> (case yts of None \<Rightarrow> rts | Some y \<Rightarrow> y) \<and> im = None)
   \<and> (0 < fst rts \<and> 0 < snd rts \<and> (case yts of None \<Rightarrow> True | Some y \<Rightarrow> 0 < fst y \<and> 0 < snd y)
      \<longrightarrow> ((init rdr rts yts nw im vb cpu = Inl (ValueError IntermediateRequired))
             = (rts \<noteq> (case yts of None \<Rightarrow> rts | Some y \<Rightarrow> y) \<and> im = None))
        \<and> ((\<exists>st. init rdr rts yts nw im vb cpu = Inr st)
             = (\<not> (rts \<noteq> (case yts of None \<Rightarrow> rts | Some y \<Rightarrow> y) \<and> im = None)))
        \<and> (\<exists>st. init rdr rts None nw None vb cpu = Inr st
                \<and> read_tile_size st = rts \<and> yield_tile_size st = rts
                \<and> intermediate st = None))"
proof (intro conjI impI)
  assume "rts \<noteq> (case yts of None \<Rightarrow> rts | Some y \<Rightarrow> y) \<and> im = None"
  then show "\<forall>st. init rdr rts yts nw im vb cpu \<noteq> Inr st"
    by (auto simp: init_def Let_def split: sum.splits)
next
  assume "init rdr rts yts nw im vb cpu = Inl (ValueError IntermediateRequired)"
  then have "rts \<noteq> (case yts of None \<Rightarrow> rts | Some y \<Rightarrow> y) \<and> im = None"
    by (auto simp: init_def Let_def tiles_shape_def ceil_div_def ndindex_def
        split: sum.splits if_splits)
  then show "rts \<noteq> (case yts of None \<Rightarrow> rts | Some y \<Rightarrow> y)" and "im = None"
    by simp_all
next
  assume pos: "0 < fst rts \<and> 0 < snd rts
    \<and> (case yts of None \<Rightarrow> True | Some y \<Rightarrow> 0 < fst y \<and> 0 < snd y)"
  obtain y where y: "0 < fst y" "0 < snd y" "yts = None \<or> yts = Some y"
    using pos by (cases yts) auto
  have rpos: "0 < fst rts" "0 < snd rts" using pos by simp_all
  note eq = init_positive [OF rpos y, of rdr nw im vb cpu]
  show "(init rdr rts yts nw im vb cpu = Inl (ValueError IntermediateRequired))
      = (rts \<noteq> (case yts of None \<Rightarrow> rts | Some y \<Rightarrow> y) \<and> im = None)"
    using pos y(3) by (simp add: eq Let_def)
  show "(\<exists>st. init rdr rts yts nw im vb cpu = Inr st)
      = (\<not> (rts \<noteq> (case yts of None \<Rightarrow> rts | Some y \<Rightarrow> y) \<and> im = None))"
    using pos y(3) by (simp add: eq Let_def)
  show "\<exists>st. init rdr rts None nw None vb cpu = Inr st
      \<and> read_tile_size st = rts \<and> yield_tile_size st = rts \<and> intermediate st = None"
    by (simp add: init_positive [OF rpos y(1,2), of None] Let_def)
qed

theorem construction_fails_iff_sizes_differ_without_intermediate_witness:
  "init (TIFFReader [[[1]]]) (1, 1) (Some (2, 2)) None None False None
     = Inl (ValueError IntermediateRequired)
   \<and> (\<exists>st. init (TIFFReader [[[1]]]) (1, 1) (Some (2, 2)) None (Some [[[0]]]) False None = Inr st)
   \<and> (\<exists>st. init (TIFFReader [[[1]]]) (1, 1) None None None False None = Inr st
          \<and> read_tile_size st = (1, 1) \<and> yield_tile_size st = (1, 1)
          \<and> intermediate st = None)"
  using
    construction_fails_iff_sizes_differ_without_intermediate
      [of "(1, 1)" "Some (2, 2)" None "TIFFReader [[[1]]]" None False None]
    construction_fails_iff_sizes_differ_without_intermediate
      [of "(1, 1)" "Some (2, 2)" "Some [[[0]]]" "TIFFReader [[[1]]]" None False None]
  by simp

section \<open>Restarting the iteration\<close>

lemma advance_yield_tile_shape [simp]: "yield_tile_shape (advance st) = yield_tile_shape st"
  by (simp add: advance_def Let_def)

lemma advance_exhausted:
  "fst (yield_tile_shape st) \<le> yield_j st \<Longrightarrow> fst (yield_tile_shape st) \<le> yield_j (advance st)"
  by (simp add: advance_def Let_def)

lemma advance_iter_yield_j: "yield_j (advance (iter st)) = yield_j (advance st)"
  by (simp add: advance_def iter_def Let_def)

text \<open>
  Claim C10. \<^verbatim>\<open>__iter__\<close> sets the read cursor to \<open>(0, 0)\<close> and changes nothing else: the
  yield cursor, \<^verbatim>\<open>enqueued\<close>, \<^verbatim>\<open>reordering_dict\<close> and \<^verbatim>\<open>remaining_reads\<close> (and the
  queue and the running workers) are as before. So once the yield cursor is past the last
  row of the yield grid, \<^verbatim>\<open>__iter__\<close> followed by \<^verbatim>\<open>__next__\<close> raises
  \<^verbatim>\<open>StopIteration\<close> at once, under every schedule, and the iterator stays exhausted; in
  particular this is so after any \<^verbatim>\<open>__next__\<close> that raised \<^verbatim>\<open>StopIteration\<close>.
\<close>

theorem iter_resets_only_read_cursor:
  "read_j (iter st) = 0 \<and> read_i (iter st) = 0
   \<and> yield_j (iter st) = yield_j st \<and> yield_i (iter st) = yield_i st
   \<and> enqueued (iter st) = enqueued st
   \<and> reordering_dict (iter st) = reordering_dict st
   \<and> remaining_reads (iter st) = remaining_reads st
   \<and> queue (iter st) = queue st \<and> processes (iter st) = processes st
   \<and> (fst (yield_tile_shape st) \<le> yield_j st \<longrightarrow>
        fst (next_tile (iter st) sched) = StopIteration
        \<and> fst (yield_tile_shape (snd (next_tile (iter st) sched)))
            \<le> yield_j (snd (next_tile (iter st) sched)))
   \<and> (fst (next_tile st sched0) = StopIteration \<longrightarrow>
        fst (next_tile (iter (snd (next_tile st sched0))) sched) = StopIteration)"
proof -
  have fields: "read_j (iter st) = 0 \<and> read_i (iter st) = 0
   \<and> yield_j (iter st) = yield_j st \<and> yield_i (iter st) = yield_i st
   \<and> enqueued (iter st) = enqueued st
   \<and> reordering_dict (iter st) = reordering_dict st
   \<and> remaining_reads (iter st) = remaining_reads st
   \<and> queue (iter st) = queue st \<and> processes (iter st) = processes st"
    by (simp add: iter_def)
  have stop: "fst (next_tile (iter s) sched) = StopIteration
        \<and> fst (yield_tile_shape (snd (next_tile (iter s) sched)))
            \<le> yield_j (snd (next_tile (iter s) sched))"
    if "fst (yield_tile_shape s) \<le> yield_j s" for s
  proof -
    have "fst (yield_tile_shape (iter s)) \<le> yield_j (iter s)"
      using that by (simp add: iter_def)
    then have "fst (yield_tile_shape (advance (iter s))) \<le> yield_j (advance (iter s))"
      using advance_exhausted [of "iter s"] by simp
    then show ?thesis by (simp add: next_tile_def Let_def)
  qed
  have again: "fst (next_tile (iter (snd (next_tile st sched0))) sched) = StopIteration"
    if "fst (next_tile st sched0) = StopIteration"
  proof (cases "fst (yield_tile_shape (advance st)) \<le> yield_j (advance st)")
    case True
    then have "snd (next_tile st sched0) = advance st"
      by (simp add: next_tile_def Let_def)
    then show ?thesis using stop [of "advance st"] True by simp
  next
    case False
    then have nl: "next_tile st sched0 = next_loop (fill_queue (advance st)) sched0"
      by (simp add: next_tile_def Let_def)
    have "fst (next_loop s sc) \<noteq> StopIteration" for s sc
    proof (induction sc arbitrary: s)
      case Nil
      show ?case by simp
    next
      case (Cons f sc)
      show ?case
        using Cons.IH
        by (auto simp: take_read_def yield_window_def Let_def
            split: sum.splits option.splits if_splits)
    qed
    then show ?thesis using that nl by simp
  qed
  show ?thesis using fields stop [of st] again by blast
qed

theorem iter_resets_only_read_cursor_witness:
  "fst (next_tile (iter \<lparr>reader = TIFFReader [[[1]]], shape = (1, 1, 1), read_tile_size = (1, 1),
       yield_tile_size = (1, 1), intermediate = None, verbose = False, queue = [],
       enqueued = {||}, reordering_dict = Map.empty, read_j = 0, read_i = 1, yield_i = 0,
       yield_j = 1, num_workers = 2, read_tiles_shape = (1, 1), yield_tile_shape = (1, 1),
       remaining_reads = [], processes = []\<rparr>) [[0]]) = StopIteration"
  using iter_resets_only_read_cursor
    [of "\<lparr>reader = TIFFReader [[[1]]], shape = (1, 1, 1), read_tile_size = (1, 1),
       yield_tile_size = (1, 1), intermediate = None, verbose = False, queue = [],
       enqueued = {||}, reordering_dict = Map.empty, read_j = 0, read_i = 1, yield_i = 0,
       yield_j = 1, num_workers = 2, read_tiles_shape = (1, 1), yield_tile_shape = (1, 1),
       remaining_reads = [], processes = []\<rparr>" "[[0]]"]
  by simp

section \<open>Frames and invariants of the operations\<close>

lemma fill_queue_stop:
  assumes "\<not> (int (fcard (enqueued st)) < num_workers st \<and> 0 < length (remaining_reads st))"
  shows "fill_queue st = st"
  using assms by (subst fill_queue.simps) (simp only: if_False)

lemma fill_queue_step:
  assumes "int (fcard (enqueued st)) < num_workers st \<and> 0 < length (remaining_reads st)"
  shows "fill_queue st =
    fill_queue (st\<lparr>remaining_reads := tl (remaining_reads st),
                    processes := processes st @ [hd (remaining_reads st)],
                    enqueued := finsert (hd (remaining_reads st)) (enqueued st)\<rparr>)"
  using assms by (subst fill_queue.simps) (simp only: if_P Let_def)

lemma fill_queue_preserves:
  assumes "P st"
    and "\<And>s. P s \<Longrightarrow> int (fcard (enqueued s)) < num_workers s \<Longrightarrow> remaining_reads s \<noteq> [] \<Longrightarrow>
           P (s\<lparr>remaining_reads := tl (remaining_reads s),
                processes := processes s @ [hd (remaining_reads s)],
                enqueued := finsert (hd (remaining_reads s)) (enqueued s)\<rparr>)"
  shows "P (fill_queue st)"
  using assms(1)
proof (induction st rule: fill_queue.induct)
  case (1 st)
  show ?case
  proof (cases "int (fcard (enqueued st)) < num_workers st \<and> 0 < length (remaining_reads st)")
    case True
    have "P (st\<lparr>remaining_reads := tl (remaining_reads st),
                processes := processes st @ [hd (remaining_reads st)],
                enqueued := finsert (hd (remaining_reads st)) (enqueued st)\<rparr>)"
      using assms(2) [OF "1.prems"] True by simp
    then show ?thesis
      using "1.IH" [OF True refl] by (simp only: fill_queue_step [OF True])
  next
    case False
    show ?thesis using "1.prems" by (simp only: fill_queue_stop [OF False])
  qed
qed

lemma fill_queue_frame:
  "reader (fill_queue st) = reader st \<and> read_tile_size (fill_queue st) = read_tile_size st
   \<and> yield_tile_size (fill_queue st) = yield_tile_size st \<and> intermediate (fill_queue st) = intermediate st
   \<and> queue (fill_queue st) = queue st \<and> reordering_dict (fill_queue st) = reordering_dict st
   \<and> read_j (fill_queue st) = read_j st \<and> read_i (fill_queue st) = read_i st
   \<and> yield_j (fill_queue st) = yield_j st \<and> yield_i (fill_queue st) = yield_i st
   \<and> num_workers (fill_queue st) = num_workers st
   \<and> read_tiles_shape (fill_queue st) = read_tiles_shape st
   \<and> yield_tile_shape (fill_queue st) = yield_tile_shape st
   \<and> shape (fill_queue st) = shape st"
  by (rule fill_queue_preserves [where P = "\<lambda>s. reader s = reader st \<and> read_tile_size s = read_tile_size st
   \<and> yield_tile_size s = yield_tile_size st \<and> intermediate s = intermediate st
   \<and> queue s = queue st \<and> reordering_dict s = reordering_dict st
   \<and> read_j s = read_j st \<and> read_i s = read_i st
   \<and> yield_j s = yield_j st \<and> yield_i s = yield_i st
   \<and> num_workers s = num_workers st
   \<and> read_tiles_shape s = read_tiles_shape st
   \<and> yield_tile_shape s = yield_tile_shape st
   \<and> shape s = shape st"]) simp_all


lemma worker_finishes_frame:
  "reader (worker_finishes n st) = reader st \<and> read_tile_size (worker_finishes n st) = read_tile_size st
   \<and> yield_tile_size (worker_finishes n st) = yield_tile_size st
   \<and> intermediate (worker_finishes n st) = intermediate st
   \<and> enqueued (worker_finishes n st) = enqueued st
   \<and> reordering_dict (worker_finishes n st) = reordering_dict st
   \<and> remaining_reads (worker_finishes n st) = remaining_reads st
   \<and> read_j (worker_finishes n st) = read_j st \<and> read_i (worker_finishes n st) = read_i st
   \<and> yield_j (worker_finishes n st) = yield_j st \<and> yield_i (worker_finishes n st) = yield_i st
   \<and> num_workers (worker_finishes n st) = num_workers st
   \<and> read_tiles_shape (worker_finishes n st) = read_tiles_shape st
   \<and> yield_tile_shape (worker_finishes n st) = yield_tile_shape st
   \<and> shape (worker_finishes n st) = shape st"
  by (simp add: worker_finishes_def Let_def split: sum.splits)

lemma workers_finish_frame:
  "reader (fold worker_finishes ns st) = reader st
   \<and> read_tile_size (fold worker_finishes ns st) = read_tile_size st
   \<and> yield_tile_size (fold worker_finishes ns st) = yield_tile_size st
   \<and> intermediate (fold worker_finishes ns st) = intermediate st
   \<and> enqueued (fold worker_finishes ns st) = enqueued st
   \<and> reordering_dict (fold worker_finishes ns st) = reordering_dict st
   \<and> remaining_reads (fold worker_finishes ns st) = remaining_reads st
   \<and> read_j (fold worker_finishes ns st) = read_j st \<and> read_i (fold worker_finishes ns st) = read_i st
   \<and> yield_j (fold worker_finishes ns st) = yield_j st \<and> yield_i (fold worker_finishes ns st) = yield_i st
   \<and> num_workers (fold worker_finishes ns st) = num_workers st
   \<and> read_tiles_shape (fold worker_finishes ns st) = read_tiles_shape st
   \<and> yield_tile_shape (fold worker_finishes ns st) = yield_tile_shape st
   \<and> shape (fold worker_finishes ns st) = shape st"
  by (induction ns arbitrary: st) (simp_all add: worker_finishes_frame)

lemma take_read_frame:
  assumes "take_read st = Inr st' \<or> take_read st = Inl (out, st')"
  shows "reader st' = reader st \<and> read_tile_size st' = read_tile_size st
   \<and> yield_tile_size st' = yield_tile_size st
   \<and> queue st' = queue st \<and> processes st' = processes st
   \<and> remaining_reads st' = remaining_reads st
   \<and> read_j st' = read_j st \<and> yield_j st' = yield_j st
   \<and> num_workers st' = num_workers st
   \<and> read_tiles_shape st' = read_tiles_shape st
   \<and> yield_tile_shape st' = yield_tile_shape st
   \<and> shape st' = shape st"
  using assms
  by (auto simp: take_read_def Let_def split: option.splits if_splits sum.splits)

lemma yield_window_frame:
  assumes "yield_window st = Inr st' \<or> yield_window st = Inl (out, st')"
  shows "st' = st \<or> st' = st\<lparr>yield_i := yield_i st + 1\<rparr>"
  using assms
  by (auto simp: yield_window_def Let_def split: option.splits if_splits)

lemma dom_drain: "dom (drain q d) = dom d \<union> fst ` set q"
proof (induction q arbitrary: d)
  case Nil
  show ?case by simp
next
  case (Cons x q)
  obtain ji tile where x: "x = (ji, tile)" by (cases x)
  have "dom (drain (x # q) d) = dom (drain q (d(ji \<mapsto> tile)))" by (simp add: x)
  also have "\<dots> = dom (d(ji \<mapsto> tile)) \<union> fst ` set q" by (rule Cons.IH)
  also have "\<dots> = dom d \<union> fst ` set (x # q)" by (simp add: x)
  finally show ?case .
qed

lemma drain_Some:
  "drain q d ji = Some t \<Longrightarrow> (ji, t) \<in> set q \<or> d ji = Some t"
proof (induction q arbitrary: d)
  case Nil
  then show ?case by simp
next
  case (Cons x q)
  obtain k tile where x: "x = (k, tile)" by (cases x)
  have "drain q (d(k \<mapsto> tile)) ji = Some t" using Cons.prems by (simp add: x)
  then have "(ji, t) \<in> set q \<or> (d(k \<mapsto> tile)) ji = Some t" by (rule Cons.IH)
  then show ?case by (auto simp: x split: if_splits)
qed

lemma worker_finishes_cases:
  assumes "processes st \<noteq> []"
  obtains xs ji zs where "processes st = xs @ ji # zs"
    and "processes (worker_finishes n st) = xs @ zs"
    and "(\<exists>e. getitem (reader st) (tile_index (read_tile_size st) ji) = Inl e
              \<and> queue (worker_finishes n st) = queue st)
         \<or> (\<exists>t. getitem (reader st) (tile_index (read_tile_size st) ji) = Inr t
              \<and> queue (worker_finishes n st) = queue st @ [(ji, t)])"
proof -
  let ?k = "n mod length (processes st)"
  have k: "?k < length (processes st)" using assms by simp
  have split: "processes st = take ?k (processes st) @ (processes st ! ?k) # drop (Suc ?k) (processes st)"
    using k by (simp add: id_take_nth_drop [symmetric])
  show ?thesis
    by (rule that [OF split])
      (use assms in \<open>auto simp: worker_finishes_def Let_def get_tile_def split: sum.splits\<close>)
qed


subsection \<open>The bound on \<^verbatim>\<open>enqueued\<close>\<close>

lemma bound_fill_queue:
  assumes "int (fcard (enqueued st)) \<le> num_workers st"
  shows "int (fcard (enqueued (fill_queue st))) \<le> num_workers (fill_queue st)"
proof (rule fill_queue_preserves [where P = "\<lambda>s. int (fcard (enqueued s)) \<le> num_workers s"])
  show "int (fcard (enqueued st)) \<le> num_workers st" by (rule assms)
next
  fix s :: iterator
  assume "int (fcard (enqueued s)) < num_workers s"
  moreover have "fcard (finsert (hd (remaining_reads s)) (enqueued s)) \<le> Suc (fcard (enqueued s))"
    by (simp add: fcard_finsert_if)
  ultimately show "int (fcard (enqueued (s\<lparr>remaining_reads := tl (remaining_reads s),
      processes := processes s @ [hd (remaining_reads s)],
      enqueued := finsert (hd (remaining_reads s)) (enqueued s)\<rparr>)))
    \<le> num_workers (s\<lparr>remaining_reads := tl (remaining_reads s),
      processes := processes s @ [hd (remaining_reads s)],
      enqueued := finsert (hd (remaining_reads s)) (enqueued s)\<rparr>)"
    by simp
qed

lemma enqueued_take_read:
  assumes "take_read st = Inr st' \<or> take_read st = Inl (out, st')"
  shows "enqueued st' = enqueued st \<or> enqueued st' = enqueued st |-| {|(read_j st, read_i st)|}"
  using assms
  by (auto simp: take_read_def Let_def split: option.splits if_splits sum.splits)

lemma bound_take_read:
  assumes "take_read st = Inr st' \<or> take_read st = Inl (out, st')"
    and "int (fcard (enqueued st)) \<le> num_workers st"
  shows "int (fcard (enqueued st')) \<le> num_workers st'"
proof -
  have "fcard (enqueued st') \<le> fcard (enqueued st)"
    using enqueued_take_read [OF assms(1)] by (auto intro: fcard_mono)
  then show ?thesis using assms(2) take_read_frame [OF assms(1)] by simp
qed

lemma bound_reachable:
  assumes "reachable st0 st" and "int (fcard (enqueued st0)) \<le> num_workers st0"
  shows "int (fcard (enqueued st)) \<le> num_workers st \<and> num_workers st = num_workers st0"
  using assms(1)
proof (induction rule: reachable.induct)
  case start
  show ?case using assms(2) by simp
next
  case (iter st)
  then show ?case by (simp add: iter_def)
next
  case (advance st)
  then show ?case by (simp add: advance_def Let_def)
next
  case (fill_queue st)
  then show ?case using bound_fill_queue [of st] by (simp add: fill_queue_frame)
next
  case (worker_finishes st n)
  then show ?case by (simp add: worker_finishes_frame)
next
  case (empty_queue st)
  then show ?case by (simp add: empty_queue_def)
next
  case (take_read_on st st')
  then show ?case using bound_take_read [of st st'] take_read_frame [of st st'] by simp
next
  case (take_read_out st out st')
  then show ?case using bound_take_read [of st st' out] take_read_frame [of st st' out] by simp
next
  case (yield_window_on st st')
  then show ?case using yield_window_frame [of st st'] by auto
next
  case (yield_window_out st out st')
  then show ?case using yield_window_frame [of st st' out] by auto
qed

subsection \<open>Every coordinate in one place\<close>

lemma placed_once_start:
  assumes "placed_once P K (x # R) D E"
  shows "placed_once (P @ [x]) K R D (insert x E)"
  using assms unfolding placed_once_def by auto

lemma placed_once_lost:
  assumes "placed_once (xs @ ji # zs) K R D E"
  shows "placed_once (xs @ zs) K R D E"
  using assms unfolding placed_once_def by auto

lemma placed_once_put:
  assumes "placed_once (xs @ ji # zs) K R D E"
  shows "placed_once (xs @ zs) (K @ [ji]) R D E"
  using assms unfolding placed_once_def by auto

lemma placed_once_drain:
  assumes "placed_once P K R D E"
  shows "placed_once P [] R (D \<union> set K) E"
  using assms unfolding placed_once_def by auto

lemma placed_once_take:
  assumes "placed_once P K R D E" and "k \<in> D"
  shows "placed_once P K R (D - {k}) (E - {k})"
  using assms unfolding placed_once_def by auto

lemma dispatch_inv_cong:
  assumes "processes st' = processes st" and "queue st' = queue st"
    and "remaining_reads st' = remaining_reads st"
    and "reordering_dict st' = reordering_dict st" and "enqueued st' = enqueued st"
  shows "dispatch_inv st' = dispatch_inv st"
  by (simp add: dispatch_inv_def assms)

lemma dispatch_fill_queue:
  assumes "dispatch_inv st"
  shows "dispatch_inv (fill_queue st)"
proof (rule fill_queue_preserves [where P = dispatch_inv, OF assms])
  fix s :: iterator
  assume inv: "dispatch_inv s" and ne: "remaining_reads s \<noteq> []"
  obtain x xs where r: "remaining_reads s = x # xs" using ne by (cases "remaining_reads s") auto
  show "dispatch_inv (s\<lparr>remaining_reads := tl (remaining_reads s),
      processes := processes s @ [hd (remaining_reads s)],
      enqueued := finsert (hd (remaining_reads s)) (enqueued s)\<rparr>)"
    using placed_once_start [of "processes s" "map fst (queue s)" x xs
        "dom (reordering_dict s)" "fset (enqueued s)"] inv
    by (simp add: dispatch_inv_def r)
qed

lemma dispatch_worker_finishes:
  assumes "dispatch_inv st"
  shows "dispatch_inv (worker_finishes n st)"
proof (cases "processes st = []")
  case True
  then show ?thesis using assms by (simp add: worker_finishes_def)
next
  case False
  obtain xs ji zs where p: "processes st = xs @ ji # zs"
    "processes (worker_finishes n st) = xs @ zs"
    and q: "queue (worker_finishes n st) = queue st
         \<or> (\<exists>t. queue (worker_finishes n st) = queue st @ [(ji, t)])"
    using worker_finishes_cases [OF False, of n] by metis
  have fr: "enqueued (worker_finishes n st) = enqueued st"
    "reordering_dict (worker_finishes n st) = reordering_dict st"
    "remaining_reads (worker_finishes n st) = remaining_reads st"
    by (simp_all add: worker_finishes_frame)
  have inv: "placed_once (xs @ ji # zs) (map fst (queue st)) (remaining_reads st)
       (dom (reordering_dict st)) (fset (enqueued st))"
    using assms by (simp add: dispatch_inv_def p)
  from q show ?thesis
  proof
    assume "queue (worker_finishes n st) = queue st"
    then show ?thesis
      using placed_once_lost [OF inv] by (simp add: dispatch_inv_def fr p)
  next
    assume "\<exists>t. queue (worker_finishes n st) = queue st @ [(ji, t)]"
    then show ?thesis
      using placed_once_put [OF inv] by (auto simp: dispatch_inv_def fr p)
  qed
qed

lemma dispatch_empty_queue:
  assumes "dispatch_inv st"
  shows "dispatch_inv (empty_queue st)"
  using placed_once_drain [of "processes st" "map fst (queue st)" "remaining_reads st"
      "dom (reordering_dict st)" "fset (enqueued st)"] assms
  by (simp add: dispatch_inv_def empty_queue_def dom_drain)

lemma take_read_effect:
  assumes "take_read st = Inr st' \<or> take_read st = Inl (out, st')"
  shows "(enqueued st' = enqueued st \<and> reordering_dict st' = reordering_dict st)
       \<or> ((read_j st, read_i st) \<in> dom (reordering_dict st)
          \<and> (read_j st, read_i st) |\<in>| enqueued st
          \<and> enqueued st' = enqueued st |-| {|(read_j st, read_i st)|}
          \<and> reordering_dict st' = (reordering_dict st)((read_j st, read_i st) := None))"
  using assms
  by (auto simp: take_read_def Let_def split: option.splits if_splits sum.splits)

lemma dispatch_take_read:
  assumes "take_read st = Inr st' \<or> take_read st = Inl (out, st')"
    and "dispatch_inv st"
  shows "dispatch_inv st'"
proof -
  let ?key = "(read_j st, read_i st)"
  have fr: "queue st' = queue st" "processes st' = processes st"
    "remaining_reads st' = remaining_reads st"
    using take_read_frame [OF assms(1)] by simp_all
  from take_read_effect [OF assms(1)] show ?thesis
  proof (elim disjE conjE)
    assume "enqueued st' = enqueued st" "reordering_dict st' = reordering_dict st"
    then show ?thesis using assms(2) dispatch_inv_cong [of st' st] fr by simp
  next
    assume key: "?key \<in> dom (reordering_dict st)"
      and e: "enqueued st' = enqueued st |-| {|?key|}"
      and d: "reordering_dict st' = (reordering_dict st)(?key := None)"
    have "placed_once (processes st) (map fst (queue st)) (remaining_reads st)
       (dom (reordering_dict st) - {?key}) (fset (enqueued st) - {?key})"
      using assms(2) key unfolding dispatch_inv_def by (rule placed_once_take)
    then show ?thesis by (simp add: dispatch_inv_def fr e d)
  qed
qed

lemma dispatch_reachable:
  assumes "reachable st0 st" and "dispatch_inv st0"
  shows "dispatch_inv st"
  using assms(1)
proof (induction rule: reachable.induct)
  case start
  show ?case by (rule assms(2))
next
  case (iter st)
  have "dispatch_inv (iter st) = dispatch_inv st"
    by (rule dispatch_inv_cong) (simp_all add: iter_def)
  then show ?case using iter.IH by simp
next
  case (advance st)
  have "dispatch_inv (advance st) = dispatch_inv st"
    by (rule dispatch_inv_cong) (simp_all add: advance_def Let_def)
  then show ?case using advance.IH by simp
next
  case (fill_queue st)
  then show ?case by (simp add: dispatch_fill_queue)
next
  case (worker_finishes st n)
  then show ?case by (simp add: dispatch_worker_finishes)
next
  case (empty_queue st)
  then show ?case by (simp add: dispatch_empty_queue)
next
  case (take_read_on st st')
  then show ?case using dispatch_take_read [of st st'] by simp
next
  case (take_read_out st out st')
  then show ?case using dispatch_take_read [of st st' out] by simp
next
  case (yield_window_on st st')
  have "dispatch_inv st' = dispatch_inv st"
    using yield_window_frame [of st st'] yield_window_on.hyps(2)
    by (intro dispatch_inv_cong) auto
  then show ?case using yield_window_on.IH by simp
next
  case (yield_window_out st out st')
  have "dispatch_inv st' = dispatch_inv st"
    using yield_window_frame [of st st' out] yield_window_out.hyps(2)
    by (intro dispatch_inv_cong) auto
  then show ?case using yield_window_out.IH by simp
qed


subsection \<open>Results are what the reader returned\<close>

lemma results_inv_cong:
  assumes "queue st' = queue st" and "reordering_dict st' = reordering_dict st"
    and "reader st' = reader st" and "read_tile_size st' = read_tile_size st"
  shows "results_inv st' = results_inv st"
  by (simp add: results_inv_def assms)

lemma results_worker_finishes:
  assumes "results_inv st"
  shows "results_inv (worker_finishes n st)"
proof (cases "processes st = []")
  case True
  then show ?thesis using assms by (simp add: worker_finishes_def)
next
  case False
  obtain xs ji zs where
    q: "queue (worker_finishes n st) = queue st
         \<or> (\<exists>t. getitem (reader st) (tile_index (read_tile_size st) ji) = Inr t
              \<and> queue (worker_finishes n st) = queue st @ [(ji, t)])"
    using worker_finishes_cases [OF False, of n] by metis
  have fr: "reordering_dict (worker_finishes n st) = reordering_dict st"
    "reader (worker_finishes n st) = reader st"
    "read_tile_size (worker_finishes n st) = read_tile_size st"
    by (simp_all add: worker_finishes_frame)
  from q show ?thesis
  proof
    assume "queue (worker_finishes n st) = queue st"
    then show ?thesis using assms results_inv_cong [of "worker_finishes n st" st] fr by simp
  next
    assume "\<exists>t. getitem (reader st) (tile_index (read_tile_size st) ji) = Inr t
              \<and> queue (worker_finishes n st) = queue st @ [(ji, t)]"
    then show ?thesis using assms unfolding results_inv_def fr by auto
  qed
qed

lemma results_empty_queue:
  assumes "results_inv st"
  shows "results_inv (empty_queue st)"
proof -
  have "getitem (reader st) (tile_index (read_tile_size st) ji) = Inr t"
    if "drain (queue st) (reordering_dict st) ji = Some t" for ji t
  proof -
    from drain_Some [OF that] show ?thesis
    proof
      assume "(ji, t) \<in> set (queue st)"
      then show ?thesis using assms unfolding results_inv_def by force
    next
      assume "reordering_dict st ji = Some t"
      then show ?thesis using assms unfolding results_inv_def by blast
    qed
  qed
  then show ?thesis by (simp add: results_inv_def empty_queue_def)
qed

lemma results_take_read:
  assumes "take_read st = Inr st' \<or> take_read st = Inl (out, st')"
    and "results_inv st"
  shows "results_inv st'"
proof -
  have fr: "queue st' = queue st" "reader st' = reader st" "read_tile_size st' = read_tile_size st"
    using take_read_frame [OF assms(1)] by simp_all
  have "reordering_dict st' = reordering_dict st
      \<or> reordering_dict st' = (reordering_dict st)((read_j st, read_i st) := None)"
    using take_read_effect [OF assms(1)] by blast
  then show ?thesis
    using assms(2) unfolding results_inv_def fr by (auto split: if_splits)
qed

lemma results_reachable:
  assumes "reachable st0 st" and "results_inv st0"
  shows "results_inv st \<and> reader st = reader st0 \<and> read_tile_size st = read_tile_size st0"
  using assms(1)
proof (induction rule: reachable.induct)
  case start
  show ?case using assms(2) by simp
next
  case (iter st)
  have "results_inv (iter st) = results_inv st"
    by (rule results_inv_cong) (simp_all add: iter_def)
  then show ?case using iter.IH by (simp add: iter_def)
next
  case (advance st)
  have "results_inv (advance st) = results_inv st"
    by (rule results_inv_cong) (simp_all add: advance_def Let_def)
  then show ?case using advance.IH by (simp add: advance_def Let_def)
next
  case (fill_queue st)
  have "results_inv (fill_queue st) = results_inv st"
    by (rule results_inv_cong) (simp_all add: fill_queue_frame)
  then show ?case using fill_queue.IH by (simp add: fill_queue_frame)
next
  case (worker_finishes st n)
  then show ?case by (simp add: results_worker_finishes worker_finishes_frame)
next
  case (empty_queue st)
  then show ?case using results_empty_queue [of st] by (simp add: empty_queue_def)
next
  case (take_read_on st st')
  then show ?case using results_take_read [of st st'] take_read_frame [of st st'] by simp
next
  case (take_read_out st out st')
  then show ?case using results_take_read [of st st' out] take_read_frame [of st st' out] by simp
next
  case (yield_window_on st st')
  have "results_inv st' = results_inv st"
    using yield_window_frame [of st st'] yield_window_on.hyps(2)
    by (intro results_inv_cong) auto
  then show ?case using yield_window_on.IH yield_window_frame [of st st'] yield_window_on.hyps(2)
    by auto
next
  case (yield_window_out st out st')
  have "results_inv st' = results_inv st"
    using yield_window_frame [of st st' out] yield_window_out.hyps(2)
    by (intro results_inv_cong) auto
  then show ?case
    using yield_window_out.IH yield_window_frame [of st st' out] yield_window_out.hyps(2)
    by auto
qed

subsection \<open>\<^verbatim>\<open>__next__\<close> stays among the reachable states\<close>

lemma reachable_workers_finish:
  "reachable st0 st \<Longrightarrow> reachable st0 (fold worker_finishes ns st)"
  by (induction ns arbitrary: st) (simp_all add: reachable.worker_finishes)

lemma reachable_next_loop:
  "reachable st0 st \<Longrightarrow> reachable st0 (snd (next_loop st sched))"
proof (induction sched arbitrary: st)
  case Nil
  then show ?case by simp
next
  case (Cons finished sched)
  let ?st1 = "empty_queue (fold worker_finishes finished st)"
  have r1: "reachable st0 ?st1"
    using Cons.prems by (simp add: reachable_workers_finish reachable.empty_queue)
  show ?case
  proof (cases "take_read ?st1")
    case (Inl r)
    then have "reachable st0 (snd r)"
      using reachable.take_read_out [OF r1, of "fst r" "snd r"] by simp
    then show ?thesis using Inl by simp
  next
    case (Inr st2)
    have r2: "reachable st0 st2" using reachable.take_read_on [OF r1 Inr] .
    show ?thesis
    proof (cases "yield_window st2")
      case (Inl r)
      then have "reachable st0 (snd r)"
        using reachable.yield_window_out [OF r2, of "fst r" "snd r"] by simp
      then show ?thesis using Inl \<open>take_read ?st1 = Inr st2\<close> by simp
    next
      case (Inr st3)
      have "reachable st0 (fill_queue st3)"
        using reachable.yield_window_on [OF r2 Inr] by (rule reachable.fill_queue)
      then show ?thesis
        using Cons.IH Inr \<open>take_read ?st1 = Inr st2\<close> by simp
    qed
  qed
qed

lemma reachable_next_tile:
  assumes "reachable st0 st"
  shows "reachable st0 (snd (next_tile st sched))"
proof -
  have a: "reachable st0 (advance st)" using assms by (rule reachable.advance)
  then have "reachable st0 (snd (next_loop (fill_queue (advance st)) sched))"
    by (intro reachable_next_loop reachable.fill_queue)
  then show ?thesis using a by (simp add: next_tile_def Let_def)
qed

subsection \<open>The constructed iterator\<close>

lemma distinct_row_major: "distinct (row_major g)"
  by (simp add: row_major_def distinct_product)

lemma init_invariants:
  assumes "init rdr rts yts nw im vb cpu = Inr st0"
  shows "dispatch_inv st0" and "results_inv st0" and "enqueued st0 = {||}"
    and "processes st0 = []" and "num_workers st0 = default_workers nw cpu"
    and "reader st0 = rdr" and "read_tile_size st0 = rts"
  using assms
  by (auto simp: init_def Let_def dispatch_inv_def placed_once_def results_inv_def
      ndindex_def distinct_row_major split: sum.splits if_splits)

section \<open>Row-major enumeration from a cursor\<close>

lemma row_major_from_origin: "row_major_from g (0, 0) = row_major g"
proof (cases "0 < fst g")
  case True
  then have "[0..fst g - 1] = 0 # [0 + 1..fst g - 1]" by (subst upto_rec1) simp_all
  then show ?thesis using True by (simp add: row_major_from_def row_major_def)
next
  case False
  then have "[0..fst g - 1] = []" by simp
  then show ?thesis using False by (simp add: row_major_from_def row_major_def)
qed

lemma row_major_from_step:
  assumes "j < fst g" and "i < snd g"
  shows "row_major_from g (j, i) = (j, i) # row_major_from g (j, i + 1)"
proof -
  have "[i..snd g - 1] = i # [i + 1..snd g - 1]" using assms(2) by (subst upto_rec1) simp_all
  then show ?thesis using assms(1) by (simp add: row_major_from_def)
qed

lemma row_major_from_wrap:
  assumes "snd g \<le> i"
  shows "row_major_from g (j, i) = row_major_from g (j + 1, 0)"
proof (cases "j + 1 < fst g")
  case True
  then have "[j + 1..fst g - 1] = (j + 1) # [j + 1 + 1..fst g - 1]" by (subst upto_rec1) simp_all
  then show ?thesis using True assms by (simp add: row_major_from_def)
next
  case False
  then have "[j + 1..fst g - 1] = []" by simp
  then show ?thesis using False assms by (simp add: row_major_from_def)
qed

lemma row_major_from_end:
  assumes "fst g \<le> j"
  shows "row_major_from g (j, i) = []"
  using assms by (simp add: row_major_from_def)

lemma distinct_row_major_from: "distinct (row_major_from g c)"
  by (auto simp: row_major_from_def distinct_map distinct_product inj_on_def)

section \<open>The yield cursor\<close>

lemma take_read_yield:
  assumes "take_read st = Inr st' \<or> take_read st = Inl (out, st')"
  shows "yield_j st' = yield_j st \<and> yield_tile_shape st' = yield_tile_shape st
       \<and> (if take_read st = Inl (out, st') \<and> (\<exists>t. out = Tile t)
           then yield_i st' = yield_i st + 1 else yield_i st' = yield_i st)"
  using assms
  by (auto simp: take_read_def Let_def split: option.splits if_splits sum.splits)

lemma take_read_out_cases:
  assumes "take_read st = Inl (out, st')"
  shows "(\<exists>t. out = Tile t \<and> intermediate st = None) \<or> (\<exists>e. out = Raised e)"
  using assms
  by (auto simp: take_read_def Let_def split: option.splits if_splits sum.splits)

lemma yield_window_yield:
  assumes "yield_window st = Inr st' \<or> yield_window st = Inl (out, st')"
  shows "yield_j st' = yield_j st \<and> yield_tile_shape st' = yield_tile_shape st
       \<and> (if yield_window st = Inl (out, st')
           then yield_i st' = yield_i st + 1 \<and> (\<exists>t. out = Tile t) else yield_i st' = yield_i st)"
  using assms
  by (auto simp: yield_window_def Let_def split: option.splits if_splits)

lemma next_loop_yield_cursor:
  assumes "next_loop st sched = (out, st')"
  shows "yield_j st' = yield_j st \<and> yield_tile_shape st' = yield_tile_shape st
       \<and> out \<noteq> StopIteration
       \<and> yield_i st' = (if \<exists>t. out = Tile t then yield_i st + 1 else yield_i st)"
  using assms
proof (induction sched arbitrary: st)
  case Nil
  then show ?case by auto
next
  case (Cons finished sched)
  let ?st1 = "empty_queue (fold worker_finishes finished st)"
  have fr1: "yield_j ?st1 = yield_j st" "yield_i ?st1 = yield_i st"
    "yield_tile_shape ?st1 = yield_tile_shape st"
    by (simp_all add: empty_queue_def workers_finish_frame)
  show ?case
  proof (cases "take_read ?st1")
    case (Inl r)
    then have r: "take_read ?st1 = Inl (out, st')" using Cons.prems by simp
    show ?thesis
      using take_read_yield [of ?st1 st' out] take_read_out_cases [OF r] r fr1 by auto
  next
    case (Inr st2)
    note tr = this
    have fr2: "yield_j st2 = yield_j st" "yield_i st2 = yield_i st"
      "yield_tile_shape st2 = yield_tile_shape st"
      using take_read_yield [of ?st1 st2] tr fr1 by simp_all
    show ?thesis
    proof (cases "yield_window st2")
      case (Inl r)
      then have r: "yield_window st2 = Inl (out, st')" using Cons.prems tr by simp
      show ?thesis
        using yield_window_yield [of st2 st' out] r fr2 by auto
    next
      case (Inr st3)
      have fr3: "yield_j (fill_queue st3) = yield_j st" "yield_i (fill_queue st3) = yield_i st"
        "yield_tile_shape (fill_queue st3) = yield_tile_shape st"
        using yield_window_yield [of st2 st3] Inr fr2 by (simp_all add: fill_queue_frame)
      have "next_loop (fill_queue st3) sched = (out, st')"
        using Cons.prems tr Inr by simp
      from Cons.IH [OF this] show ?thesis by (simp add: fr3)
    qed
  qed
qed

lemma advance_frame:
  "reader (advance st) = reader st \<and> read_tile_size (advance st) = read_tile_size st
   \<and> yield_tile_size (advance st) = yield_tile_size st \<and> intermediate (advance st) = intermediate st
   \<and> queue (advance st) = queue st \<and> reordering_dict (advance st) = reordering_dict st
   \<and> enqueued (advance st) = enqueued st \<and> processes (advance st) = processes st
   \<and> remaining_reads (advance st) = remaining_reads st
   \<and> num_workers (advance st) = num_workers st
   \<and> read_tiles_shape (advance st) = read_tiles_shape st
   \<and> yield_tile_shape (advance st) = yield_tile_shape st
   \<and> shape (advance st) = shape st"
  by (simp add: advance_def Let_def)

lemma advance_yield_cursor:
  "row_major_from (yield_tile_shape st) (yield_j (advance st), yield_i (advance st))
     = row_major_from (yield_tile_shape st) (yield_j st, yield_i st)"
  "0 < snd (yield_tile_shape st) \<Longrightarrow> yield_i (advance st) < snd (yield_tile_shape st)"
  by (simp_all add: advance_def Let_def row_major_from_wrap)

lemma advance_read_cursor:
  "row_major_from (read_tiles_shape st) (read_j (advance st), read_i (advance st))
     = row_major_from (read_tiles_shape st) (read_j st, read_i st)"
  "0 < snd (read_tiles_shape st) \<Longrightarrow> read_i (advance st) < snd (read_tiles_shape st)"
  by (simp_all add: advance_def Let_def row_major_from_wrap)

lemma next_tile_yield_cursor:
  assumes "next_tile st sched = (out, st')" and "0 < snd (yield_tile_shape st)"
  shows "yield_tile_shape st' = yield_tile_shape st
    \<and> ((\<exists>t. out = Tile t) \<longrightarrow>
           row_major_from (yield_tile_shape st) (yield_j st, yield_i st)
             = (yield_j st', yield_i st' - 1)
               # row_major_from (yield_tile_shape st) (yield_j st', yield_i st'))
    \<and> (\<not> (\<exists>t. out = Tile t) \<longrightarrow>
           row_major_from (yield_tile_shape st) (yield_j st', yield_i st')
             = row_major_from (yield_tile_shape st) (yield_j st, yield_i st))
    \<and> (out = StopIteration \<longrightarrow>
           row_major_from (yield_tile_shape st) (yield_j st, yield_i st) = [])"
proof -
  let ?a = "advance st"
  let ?g = "yield_tile_shape st"
  have i: "yield_i ?a < snd ?g" using assms(2) by (rule advance_yield_cursor(2))
  have rm: "row_major_from ?g (yield_j ?a, yield_i ?a) = row_major_from ?g (yield_j st, yield_i st)"
    by (rule advance_yield_cursor(1))
  show ?thesis
  proof (cases "fst ?g \<le> yield_j ?a")
    case True
    then have "out = StopIteration" "st' = ?a"
      using assms(1) by (simp_all add: next_tile_def Let_def)
    then show ?thesis
      using rm True row_major_from_end [of ?g "yield_j ?a" "yield_i ?a"] by simp
  next
    case False
    then have nl: "next_loop (fill_queue ?a) sched = (out, st')"
      using assms(1) by (simp add: next_tile_def Let_def)
    have c: "yield_j st' = yield_j ?a" "yield_tile_shape st' = ?g" "out \<noteq> StopIteration"
      "yield_i st' = (if \<exists>t. out = Tile t then yield_i ?a + 1 else yield_i ?a)"
      using next_loop_yield_cursor [OF nl] by (simp_all add: fill_queue_frame)
    have step: "row_major_from ?g (yield_j ?a, yield_i ?a)
        = (yield_j ?a, yield_i ?a) # row_major_from ?g (yield_j ?a, yield_i ?a + 1)"
      using False i by (intro row_major_from_step) simp_all
    show ?thesis
      using c rm step by auto
  qed
qed

lemma iterate_order:
  assumes "iterate st scheds = (ys, out, st')" and "0 < snd (yield_tile_shape st)"
  shows "map fst ys @ row_major_from (yield_tile_shape st) (yield_j st', yield_i st')
           = row_major_from (yield_tile_shape st) (yield_j st, yield_i st)
       \<and> yield_tile_shape st' = yield_tile_shape st
       \<and> (out = Some StopIteration \<longrightarrow>
            map fst ys = row_major_from (yield_tile_shape st) (yield_j st, yield_i st))"
  using assms
proof (induction scheds arbitrary: st ys)
  case Nil
  then show ?case by simp
next
  case (Cons sched scheds)
  obtain o1 st1 where n: "next_tile st sched = (o1, st1)" by (cases "next_tile st sched")
  have yc: "yield_tile_shape st1 = yield_tile_shape st"
    "(\<exists>t. o1 = Tile t) \<Longrightarrow>
           row_major_from (yield_tile_shape st) (yield_j st, yield_i st)
             = (yield_j st1, yield_i st1 - 1)
               # row_major_from (yield_tile_shape st) (yield_j st1, yield_i st1)"
    "\<not> (\<exists>t. o1 = Tile t) \<Longrightarrow>
           row_major_from (yield_tile_shape st) (yield_j st1, yield_i st1)
             = row_major_from (yield_tile_shape st) (yield_j st, yield_i st)"
    "o1 = StopIteration \<Longrightarrow>
           row_major_from (yield_tile_shape st) (yield_j st, yield_i st) = []"
    using next_tile_yield_cursor [OF n Cons.prems(2)] by blast+
  show ?case
  proof (cases "\<exists>t. o1 = Tile t")
    case True
    then obtain t where t: "o1 = Tile t" by blast
    obtain ys1 where it: "iterate st1 scheds = (ys1, out, st')"
      and ys: "ys = ((yield_j st1, yield_i st1 - 1), t) # ys1"
      using Cons.prems(1) n t by (auto split: prod.splits)
    have g1: "0 < snd (yield_tile_shape st1)" using yc(1) Cons.prems(2) by simp
    from Cons.IH [OF it g1] yc(1) yc(2) [OF True] show ?thesis
      by (simp add: ys)
  next
    case False
    then have r: "ys = []" "out = Some o1" "st' = st1"
      using Cons.prems(1) n by (cases o1; simp)+
    show ?thesis using yc(1) yc(3) [OF False] yc(4) r by auto
  qed
qed

section \<open>Iteration without intermediate\<close>

lemma lockstep_cong:
  assumes "intermediate st' = intermediate st" and "read_tiles_shape st' = read_tiles_shape st"
    and "yield_tile_shape st' = yield_tile_shape st"
    and "read_j st' = read_j st" and "read_i st' = read_i st"
    and "yield_j st' = yield_j st" and "yield_i st' = yield_i st"
  shows "lockstep st' = lockstep st"
  by (simp add: lockstep_def assms)

lemma lockstep_advance: "lockstep st \<Longrightarrow> lockstep (advance st)"
  by (simp add: lockstep_def advance_def Let_def)

lemma take_read_lockstep:
  assumes "lockstep st"
  shows "(take_read st = Inr st \<and> reordering_dict st (read_j st, read_i st) = None)
       \<or> (\<exists>e. take_read st = Inl (Raised e, st))
       \<or> (\<exists>t. reordering_dict st (read_j st, read_i st) = Some t
              \<and> (read_j st, read_i st) |\<in>| enqueued st
              \<and> take_read st =
                  Inl (Tile t, st\<lparr>enqueued := enqueued st |-| {|(read_j st, read_i st)|},
                     reordering_dict := (reordering_dict st)((read_j st, read_i st) := None),
                     read_i := read_i st + 1, yield_i := yield_i st + 1\<rparr>))"
  using assms
  by (auto simp: take_read_def lockstep_def Let_def split: option.splits)

lemma yield_window_None: "intermediate st = None \<Longrightarrow> yield_window st = Inr st"
  by (simp add: yield_window_def)

lemma results_workers_finish:
  "results_inv st \<Longrightarrow> results_inv (fold worker_finishes ns st)"
  by (induction ns arbitrary: st) (simp_all add: results_worker_finishes)

lemma dispatch_workers_finish:
  "dispatch_inv st \<Longrightarrow> dispatch_inv (fold worker_finishes ns st)"
  by (induction ns arbitrary: st) (simp_all add: dispatch_worker_finishes)

lemma next_loop_lockstep:
  assumes "next_loop st sched = (out, st')" and "lockstep st" and "results_inv st"
  shows "lockstep st' \<and> results_inv st'
       \<and> (\<forall>t. out = Tile t \<longrightarrow>
             getitem (reader st) (tile_index (read_tile_size st) (yield_j st, yield_i st)) = Inr t)"
  using assms
proof (induction sched arbitrary: st)
  case Nil
  then show ?case by auto
next
  case (Cons finished sched)
  let ?st1 = "empty_queue (fold worker_finishes finished st)"
  have l1: "lockstep ?st1"
    using Cons.prems(2) lockstep_cong [of ?st1 st]
    by (simp add: empty_queue_def workers_finish_frame)
  have r1: "results_inv ?st1"
    using Cons.prems(3) by (simp add: results_workers_finish results_empty_queue)
  have fr1: "reader ?st1 = reader st" "read_tile_size ?st1 = read_tile_size st"
    "yield_j ?st1 = yield_j st" "yield_i ?st1 = yield_i st"
    by (simp_all add: empty_queue_def workers_finish_frame)
  from take_read_lockstep [OF l1] show ?case
  proof (elim disjE conjE exE)
    assume tr: "take_read ?st1 = Inr ?st1"
    have fq: "lockstep (fill_queue ?st1)" "results_inv (fill_queue ?st1)"
      using l1 r1 lockstep_cong [of "fill_queue ?st1" ?st1] results_inv_cong [of "fill_queue ?st1" ?st1]
      by (simp_all add: fill_queue_frame)
    have "next_loop (fill_queue ?st1) sched = (out, st')"
      using Cons.prems(1) tr yield_window_None [of ?st1] l1 by (simp add: lockstep_def)
    from Cons.IH [OF this fq] show ?thesis
      by (simp add: fill_queue_frame fr1)
  next
    fix e assume tr: "take_read ?st1 = Inl (Raised e, ?st1)"
    then have "out = Raised e" "st' = ?st1" using Cons.prems(1) by simp_all
    then show ?thesis using l1 r1 by simp
  next
    fix t
    let ?key = "(read_j ?st1, read_i ?st1)"
    let ?st2 = "?st1\<lparr>enqueued := enqueued ?st1 |-| {|?key|},
                     reordering_dict := (reordering_dict ?st1)(?key := None),
                     read_i := read_i ?st1 + 1, yield_i := yield_i ?st1 + 1\<rparr>"
    assume d: "reordering_dict ?st1 ?key = Some t"
      and tr: "take_read ?st1 = Inl (Tile t, ?st2)"
    have o: "out = Tile t" "st' = ?st2" using Cons.prems(1) tr by simp_all
    have "getitem (reader ?st1) (tile_index (read_tile_size ?st1) ?key) = Inr t"
      using r1 d unfolding results_inv_def by blast
    moreover have "?key = (yield_j st, yield_i st)"
      using l1 fr1 by (simp add: lockstep_def)
    moreover have "lockstep ?st2" using l1 by (simp add: lockstep_def)
    moreover have "results_inv ?st2"
      using results_take_read [of ?st1 ?st2 "Tile t"] tr r1 by simp
    ultimately show ?thesis using o fr1 by simp
  qed
qed

lemma next_tile_lockstep:
  assumes "next_tile st sched = (out, st')" and "lockstep st" and "results_inv st"
  shows "lockstep st' \<and> results_inv st'
       \<and> reader st' = reader st \<and> read_tile_size st' = read_tile_size st
       \<and> (\<forall>t. out = Tile t \<longrightarrow>
             getitem (reader st) (tile_index (read_tile_size st) (yield_j st', yield_i st' - 1)) = Inr t)"
proof -
  let ?a = "advance st"
  have la: "lockstep ?a" using assms(2) by (rule lockstep_advance)
  have ra: "results_inv ?a"
    using assms(3) results_inv_cong [of ?a st] by (simp add: advance_frame)
  have "reachable st (snd (next_tile st sched))"
    by (intro reachable_next_tile reachable.start)
  then have fr: "reader st' = reader st" "read_tile_size st' = read_tile_size st"
    using results_reachable [of st st'] assms(1,3) by simp_all
  show ?thesis
  proof (cases "fst (yield_tile_shape ?a) \<le> yield_j ?a")
    case True
    then have "out = StopIteration" "st' = ?a"
      using assms(1) by (simp_all add: next_tile_def Let_def)
    then show ?thesis using la ra fr by simp
  next
    case False
    then have nl: "next_loop (fill_queue ?a) sched = (out, st')"
      using assms(1) by (simp add: next_tile_def Let_def)
    have lf: "lockstep (fill_queue ?a)" "results_inv (fill_queue ?a)"
      using la ra lockstep_cong [of "fill_queue ?a" ?a] results_inv_cong [of "fill_queue ?a" ?a]
      by (simp_all add: fill_queue_frame)
    have c: "yield_j st' = yield_j ?a"
      "yield_i st' = (if \<exists>t. out = Tile t then yield_i ?a + 1 else yield_i ?a)"
      using next_loop_yield_cursor [OF nl] by (simp_all add: fill_queue_frame)
    show ?thesis
      using next_loop_lockstep [OF nl lf] c fr
      by (auto simp: fill_queue_frame advance_frame)
  qed
qed

lemma iterate_content:
  assumes "iterate st scheds = (ys, out, st')" and "lockstep st" and "results_inv st"
  shows "\<forall>y \<in> set ys. getitem (reader st) (tile_index (read_tile_size st) (fst y)) = Inr (snd y)"
  using assms
proof (induction scheds arbitrary: st ys)
  case Nil
  then show ?case by simp
next
  case (Cons sched scheds)
  obtain o1 st1 where n: "next_tile st sched = (o1, st1)" by (cases "next_tile st sched")
  note ls = next_tile_lockstep [OF n Cons.prems(2,3)]
  show ?case
  proof (cases "\<exists>t. o1 = Tile t")
    case True
    then obtain t where t: "o1 = Tile t" by blast
    obtain ys1 where it: "iterate st1 scheds = (ys1, out, st')"
      and ys: "ys = ((yield_j st1, yield_i st1 - 1), t) # ys1"
      using Cons.prems(1) n t by (auto split: prod.splits)
    have "\<forall>y \<in> set ys1. getitem (reader st1) (tile_index (read_tile_size st1) (fst y)) = Inr (snd y)"
      using Cons.IH [OF it] ls by blast
    then show ?thesis using ls t by (simp add: ys)
  next
    case False
    then have "ys = []" using Cons.prems(1) n by (cases o1; simp)
    then show ?thesis by simp
  qed
qed

lemma fill_queue_full:
  "\<not> (int (fcard (enqueued (fill_queue st))) < num_workers (fill_queue st)
       \<and> 0 < length (remaining_reads (fill_queue st)))"
proof (induction st rule: fill_queue.induct)
  case (1 st)
  show ?case
  proof (cases "int (fcard (enqueued st)) < num_workers st \<and> 0 < length (remaining_reads st)")
    case True
    have "fill_queue st = fill_queue (st\<lparr>remaining_reads := tl (remaining_reads st),
                    processes := processes st @ [hd (remaining_reads st)],
                    enqueued := finsert (hd (remaining_reads st)) (enqueued st)\<rparr>)"
      by (rule fill_queue_step [OF True])
    then show ?thesis using "1.IH" [OF True refl] by simp
  next
    case False
    have "fill_queue st = st" by (rule fill_queue_stop [OF False])
    then show ?thesis using False by simp
  qed
qed

lemma fill_queue_mono: "enqueued st |\<subseteq>| enqueued (fill_queue st)"
  by (rule fill_queue_preserves [where P = "\<lambda>s. enqueued st |\<subseteq>| enqueued s"]) auto

lemma worker_finishes_total:
  assumes "always_reads (reader st)"
  shows "set (processes (worker_finishes n st)) \<union> set (map fst (queue (worker_finishes n st)))
           = set (processes st) \<union> set (map fst (queue st))"
    and "length (processes (worker_finishes n st)) = length (processes st) - 1"
proof -
  show "set (processes (worker_finishes n st)) \<union> set (map fst (queue (worker_finishes n st)))
           = set (processes st) \<union> set (map fst (queue st))"
  proof (cases "processes st = []")
    case True
    then show ?thesis by (simp add: worker_finishes_def)
  next
    case False
    obtain xs ji zs where p: "processes st = xs @ ji # zs"
      "processes (worker_finishes n st) = xs @ zs"
      and q: "(\<exists>e. getitem (reader st) (tile_index (read_tile_size st) ji) = Inl e
              \<and> queue (worker_finishes n st) = queue st)
         \<or> (\<exists>t. getitem (reader st) (tile_index (read_tile_size st) ji) = Inr t
              \<and> queue (worker_finishes n st) = queue st @ [(ji, t)])"
      using worker_finishes_cases [OF False, of n] by metis
    obtain t where "getitem (reader st) (tile_index (read_tile_size st) ji) = Inr t"
      using assms unfolding always_reads_def by blast
    then obtain t' where "queue (worker_finishes n st) = queue st @ [(ji, t')]"
      using q by auto
    then show ?thesis by (auto simp: p)
  qed
  show "length (processes (worker_finishes n st)) = length (processes st) - 1"
  proof (cases "processes st = []")
    case True
    then show ?thesis by (simp add: worker_finishes_def)
  next
    case False
    obtain xs ji zs where p: "processes st = xs @ ji # zs"
      "processes (worker_finishes n st) = xs @ zs"
      using worker_finishes_cases [OF False, of n] by metis
    then show ?thesis by simp
  qed
qed

lemma workers_finish_total:
  assumes "always_reads (reader st)"
  shows "set (processes (fold worker_finishes ns st))
           \<union> set (map fst (queue (fold worker_finishes ns st)))
           = set (processes st) \<union> set (map fst (queue st))
      \<and> length (processes (fold worker_finishes ns st)) \<le> length (processes st)"
  using assms
proof (induction ns arbitrary: st)
  case Nil
  show ?case by simp
next
  case (Cons n ns)
  have a: "always_reads (reader (worker_finishes n st))"
    using Cons.prems by (simp add: worker_finishes_frame)
  have "length (processes (worker_finishes n st)) \<le> length (processes st)"
    using worker_finishes_total(2) [OF Cons.prems, of n] by simp
  then show ?case
    using Cons.IH [OF a] worker_finishes_total(1) [OF Cons.prems, of n] by auto
qed

lemma workers_finish_fewer:
  assumes "always_reads (reader st)" and "ns \<noteq> []" and "processes st \<noteq> []"
  shows "length (processes (fold worker_finishes ns st)) < length (processes st)"
proof -
  obtain n ms where ns: "ns = n # ms" using assms(2) by (cases ns) auto
  have a: "always_reads (reader (worker_finishes n st))"
    using assms(1) by (simp add: worker_finishes_frame)
  have "length (processes (fold worker_finishes ms (worker_finishes n st)))
        \<le> length (processes (worker_finishes n st))"
    using workers_finish_total [OF a, of ms] by simp
  moreover have "length (processes (worker_finishes n st)) < length (processes st)"
    using worker_finishes_total(2) [OF assms(1), of n] assms(3) by (cases "processes st") simp_all
  ultimately show ?thesis by (simp add: ns)
qed

lemma pending_cong:
  assumes "enqueued st' = enqueued st" and "remaining_reads st' = remaining_reads st"
    and "read_tiles_shape st' = read_tiles_shape st"
    and "read_j st' = read_j st" and "read_i st' = read_i st"
    and "set (processes st') \<union> set (map fst (queue st')) \<union> dom (reordering_dict st')
           = set (processes st) \<union> set (map fst (queue st)) \<union> dom (reordering_dict st)"
  shows "pending_from_cursor st' = pending_from_cursor st"
  unfolding pending_from_cursor_def assms(1-5) using assms(6) by simp

lemma in_step_advance:
  assumes "in_step st"
  shows "in_step (advance st)"
proof -
  have "dispatch_inv (advance st) = dispatch_inv st"
    by (rule dispatch_inv_cong) (simp_all add: advance_frame)
  moreover have "results_inv (advance st) = results_inv st"
    by (rule results_inv_cong) (simp_all add: advance_frame)
  moreover have "pending_from_cursor (advance st)"
    using assms advance_read_cursor(1) [of st]
    unfolding in_step_def pending_from_cursor_def by (simp add: advance_frame)
  ultimately show ?thesis
    using assms lockstep_advance [of st] unfolding in_step_def by (simp add: advance_frame)
qed

lemma pending_fill_queue:
  assumes "pending_from_cursor st"
  shows "pending_from_cursor (fill_queue st)"
proof (rule fill_queue_preserves [where P = pending_from_cursor, OF assms])
  fix s :: iterator
  assume p: "pending_from_cursor s" and ne: "remaining_reads s \<noteq> []"
  obtain x xs where r: "remaining_reads s = x # xs" using ne by (cases "remaining_reads s") auto
  obtain pend where pend: "fset (enqueued s) = set pend"
    "pend @ x # xs = row_major_from (read_tiles_shape s) (read_j s, read_i s)"
    and held: "fset (enqueued s)
        \<subseteq> set (processes s) \<union> set (map fst (queue s)) \<union> dom (reordering_dict s)"
    using p unfolding pending_from_cursor_def r by blast
  let ?s' = "s\<lparr>remaining_reads := tl (remaining_reads s),
      processes := processes s @ [hd (remaining_reads s)],
      enqueued := finsert (hd (remaining_reads s)) (enqueued s)\<rparr>"
  show "pending_from_cursor ?s'"
    unfolding pending_from_cursor_def
  proof (intro conjI exI [of _ "pend @ [x]"])
    show "fset (enqueued ?s') = set (pend @ [x])" using pend(1) by (simp add: r)
    show "(pend @ [x]) @ remaining_reads ?s'
        = row_major_from (read_tiles_shape ?s') (read_j ?s', read_i ?s')"
      using pend(2) by (simp add: r)
    show "fset (enqueued ?s')
        \<subseteq> set (processes ?s') \<union> set (map fst (queue ?s')) \<union> dom (reordering_dict ?s')"
      using held by (auto simp: r)
  qed
qed

lemma in_step_fill_queue:
  assumes "in_step st"
  shows "in_step (fill_queue st)"
proof -
  have "lockstep (fill_queue st) = lockstep st"
    by (rule lockstep_cong) (simp_all add: fill_queue_frame)
  moreover have "results_inv (fill_queue st) = results_inv st"
    by (rule results_inv_cong) (simp_all add: fill_queue_frame)
  moreover have "int (fcard (enqueued (fill_queue st))) \<le> num_workers (fill_queue st)"
    using assms bound_fill_queue [of st] by (simp add: in_step_def)
  ultimately show ?thesis
    using assms dispatch_fill_queue [of st] pending_fill_queue [of st]
    unfolding in_step_def by (simp add: fill_queue_frame)
qed

lemma in_step_workers_finish:
  assumes "in_step st"
  shows "in_step (fold worker_finishes ns st)"
proof -
  let ?st' = "fold worker_finishes ns st"
  have a: "always_reads (reader st)" using assms by (simp add: in_step_def)
  have "lockstep ?st' = lockstep st"
    by (rule lockstep_cong) (simp_all add: workers_finish_frame)
  moreover have "pending_from_cursor ?st' = pending_from_cursor st"
    using workers_finish_total [OF a, of ns]
    by (intro pending_cong) (simp_all add: workers_finish_frame)
  ultimately show ?thesis
    using assms dispatch_workers_finish [of st ns] results_workers_finish [of st ns]
    unfolding in_step_def by (simp add: workers_finish_frame)
qed

lemma in_step_empty_queue:
  assumes "in_step st"
  shows "in_step (empty_queue st)"
proof -
  let ?st' = "empty_queue st"
  have "lockstep ?st' = lockstep st"
    by (rule lockstep_cong) (simp_all add: empty_queue_def)
  moreover have "pending_from_cursor ?st' = pending_from_cursor st"
    by (rule pending_cong) (auto simp: empty_queue_def dom_drain)
  ultimately show ?thesis
    using assms dispatch_empty_queue [of st] results_empty_queue [of st]
    unfolding in_step_def by (simp add: empty_queue_def)
qed

lemma in_step_taken:
  assumes "in_step st"
    and j: "read_j st < fst (read_tiles_shape st)" and i: "read_i st < snd (read_tiles_shape st)"
    and d: "reordering_dict st (read_j st, read_i st) = Some t"
  shows "in_step (st\<lparr>enqueued := enqueued st |-| {|(read_j st, read_i st)|},
                     reordering_dict := (reordering_dict st)((read_j st, read_i st) := None),
                     read_i := read_i st + 1, yield_i := yield_i st + 1\<rparr>)"
    (is "in_step ?st'")
proof -
  let ?key = "(read_j st, read_i st)"
  let ?g = "read_tiles_shape st"
  have ls: "lockstep st" and di: "dispatch_inv st" and ri: "results_inv st"
    and pe: "pending_from_cursor st" and bo: "int (fcard (enqueued st)) \<le> num_workers st"
    and co: "always_reads (reader st)" "0 < num_workers st" "0 < snd (read_tiles_shape st)"
    using assms(1) unfolding in_step_def by simp_all
  have po: "placed_once (processes st) (map fst (queue st)) (remaining_reads st)
       (dom (reordering_dict st)) (fset (enqueued st))"
    using di by (simp add: dispatch_inv_def)
  have kd: "?key \<in> dom (reordering_dict st)" using d by blast
  then have ke: "?key \<in> fset (enqueued st)"
    using po unfolding placed_once_def by blast
  have knot: "?key \<notin> set (processes st) \<union> set (map fst (queue st))"
    using po kd unfolding placed_once_def by auto
  obtain pend where pend: "fset (enqueued st) = set pend"
    "pend @ remaining_reads st = row_major_from ?g ?key"
    and held: "fset (enqueued st)
        \<subseteq> set (processes st) \<union> set (map fst (queue st)) \<union> dom (reordering_dict st)"
    using pe unfolding pending_from_cursor_def by blast
  have step: "row_major_from ?g ?key = ?key # row_major_from ?g (read_j st, read_i st + 1)"
    using j i by (rule row_major_from_step)
  have "pend \<noteq> []" using ke pend(1) by auto
  then obtain pend' where p': "pend = ?key # pend'"
    using pend(2) step by (cases pend) auto
  have rest: "pend' @ remaining_reads st = row_major_from ?g (read_j st, read_i st + 1)"
    using pend(2) step p' by simp
  have "distinct (pend @ remaining_reads st)"
    unfolding pend(2) by (rule distinct_row_major_from)
  then have "?key \<notin> set pend'" using p' by simp
  then have e': "fset (enqueued st |-| {|?key|}) = set pend'"
    using pend(1) p' by auto
  have held': "fset (enqueued st |-| {|?key|})
        \<subseteq> set (processes st) \<union> set (map fst (queue st)) \<union> (dom (reordering_dict st) - {?key})"
    using held by auto
  have 1: "lockstep ?st'" using ls by (simp add: lockstep_def)
  have "placed_once (processes st) (map fst (queue st)) (remaining_reads st)
       (dom (reordering_dict st) - {?key}) (fset (enqueued st) - {?key})"
    using po kd by (rule placed_once_take)
  then have 2: "dispatch_inv ?st'" by (simp add: dispatch_inv_def)
  have 3: "results_inv ?st'"
    using ri unfolding results_inv_def by (auto split: if_splits)
  have 4: "pending_from_cursor ?st'"
    unfolding pending_from_cursor_def using e' rest held' by (simp del: fset_simps) blast
  have "fcard (enqueued st |-| {|?key|}) \<le> fcard (enqueued st)"
    by (intro fcard_mono) auto
  then have 5: "int (fcard (enqueued ?st')) \<le> num_workers ?st'" using bo by simp
  show ?thesis
    unfolding in_step_def using 1 2 3 4 5 co by simp
qed

lemma processes_bounded:
  assumes "dispatch_inv st"
  shows "length (processes st) \<le> fcard (enqueued st)"
proof -
  have d: "distinct (processes st)" and s: "set (processes st) \<subseteq> fset (enqueued st)"
    using assms unfolding dispatch_inv_def placed_once_def by auto
  have "length (processes st) = card (set (processes st))"
    using d by (simp add: distinct_card)
  also have "\<dots> \<le> card (fset (enqueued st))"
    using s by (intro card_mono) simp_all
  finally show ?thesis by (simp add: fcard.rep_eq)
qed

lemma next_loop_returns:
  assumes "in_step st"
    and "read_j st < fst (read_tiles_shape st)" and "read_i st < snd (read_tiles_shape st)"
    and "(read_j st, read_i st) |\<in>| enqueued st"
    and "\<not> (int (fcard (enqueued st)) < num_workers st \<and> 0 < length (remaining_reads st))"
    and "[] \<notin> set sched" and "length (processes st) \<le> length sched" and "sched \<noteq> []"
  shows "\<exists>t st'. next_loop st sched = (Tile t, st') \<and> in_step st'
           \<and> read_j st' = read_j st \<and> read_i st' = read_i st + 1
           \<and> read_tiles_shape st' = read_tiles_shape st \<and> num_workers st' = num_workers st"
  using assms
proof (induction sched arbitrary: st)
  case Nil
  then show ?case by simp
next
  case (Cons finished sched)
  let ?sa = "fold worker_finishes finished st"
  let ?sb = "empty_queue ?sa"
  let ?key = "(read_j st, read_i st)"
  have a: "always_reads (reader st)" using Cons.prems(1) by (simp add: in_step_def)
  have ia: "in_step ?sa" using Cons.prems(1) by (rule in_step_workers_finish)
  have ib: "in_step ?sb" using ia by (rule in_step_empty_queue)
  have fr: "read_j ?sb = read_j st" "read_i ?sb = read_i st"
    "read_tiles_shape ?sb = read_tiles_shape st" "enqueued ?sb = enqueued st"
    "num_workers ?sb = num_workers st" "remaining_reads ?sb = remaining_reads st"
    "queue ?sb = []" "processes ?sb = processes ?sa"
    by (simp_all add: empty_queue_def workers_finish_frame)
  have lb: "lockstep ?sb" using ib by (simp add: in_step_def)
  from take_read_lockstep [OF lb] show ?case
  proof (elim disjE conjE exE)
    assume tr: "take_read ?sb = Inr ?sb"
      and none: "reordering_dict ?sb (read_j ?sb, read_i ?sb) = None"
    have "?key \<in> set (processes ?sb) \<union> set (map fst (queue ?sb)) \<union> dom (reordering_dict ?sb)"
      using ib Cons.prems(4) unfolding in_step_def pending_from_cursor_def fr by blast
    then have kp: "?key \<in> set (processes ?sa)"
      using none unfolding fr by auto
    then have pa: "processes ?sa \<noteq> []" by auto
    have "length (processes ?sa) \<le> length (processes st)"
      using workers_finish_total [OF a, of finished] by simp
    then have ps: "processes st \<noteq> []" using pa by auto
    have fin: "finished \<noteq> []" using Cons.prems(6) by auto
    have "length (processes ?sa) < length (processes st)"
      using workers_finish_fewer [OF a fin ps] .
    then have len: "length (processes ?sb) \<le> length sched"
      using Cons.prems(7) by (simp add: fr)
    then have ne: "sched \<noteq> []" using pa by (auto simp: fr)
    have full: "\<not> (int (fcard (enqueued ?sb)) < num_workers ?sb
                   \<and> 0 < length (remaining_reads ?sb))"
      using Cons.prems(5) by (simp add: fr)
    have fq: "fill_queue ?sb = ?sb" by (rule fill_queue_stop [OF full])
    have nl: "next_loop st (finished # sched) = next_loop ?sb sched"
      using tr yield_window_None [of ?sb] lb fq by (simp add: lockstep_def)
    have "\<exists>t st'. next_loop ?sb sched = (Tile t, st') \<and> in_step st'
           \<and> read_j st' = read_j ?sb \<and> read_i st' = read_i ?sb + 1
           \<and> read_tiles_shape st' = read_tiles_shape ?sb \<and> num_workers st' = num_workers ?sb"
    proof (rule Cons.IH [OF ib _ _ _ full _ len ne])
      show "read_j ?sb < fst (read_tiles_shape ?sb)" using Cons.prems(2) by (simp add: fr)
      show "read_i ?sb < snd (read_tiles_shape ?sb)" using Cons.prems(3) by (simp add: fr)
      show "(read_j ?sb, read_i ?sb) |\<in>| enqueued ?sb" using Cons.prems(4) by (simp add: fr)
      show "[] \<notin> set sched" using Cons.prems(6) by simp
    qed
    then show ?thesis unfolding nl fr .
  next
    fix e assume tr: "take_read ?sb = Inl (Raised e, ?sb)"
    have po: "placed_once (processes ?sb) (map fst (queue ?sb)) (remaining_reads ?sb)
       (dom (reordering_dict ?sb)) (fset (enqueued ?sb))"
      using ib by (simp add: in_step_def dispatch_inv_def)
    have "False"
      using tr po unfolding placed_once_def take_read_def Let_def
      by (auto split: option.splits if_splits sum.splits simp: lb [unfolded lockstep_def])
    then show ?thesis ..
  next
    fix t
    let ?k = "(read_j ?sb, read_i ?sb)"
    let ?st2 = "?sb\<lparr>enqueued := enqueued ?sb |-| {|?k|},
                     reordering_dict := (reordering_dict ?sb)(?k := None),
                     read_i := read_i ?sb + 1, yield_i := yield_i ?sb + 1\<rparr>"
    assume d: "reordering_dict ?sb ?k = Some t"
      and tr: "take_read ?sb = Inl (Tile t, ?st2)"
    have "in_step ?st2"
    proof (rule in_step_taken [OF ib _ _ d])
      show "read_j ?sb < fst (read_tiles_shape ?sb)" using Cons.prems(2) by (simp add: fr)
      show "read_i ?sb < snd (read_tiles_shape ?sb)" using Cons.prems(3) by (simp add: fr)
    qed
    moreover have "next_loop st (finished # sched) = (Tile t, ?st2)" using tr by simp
    ultimately show ?thesis by (simp add: fr)
  qed
qed

lemma cursor_enqueued_after_fill:
  assumes "in_step st"
    and j: "read_j st < fst (read_tiles_shape st)" and i: "read_i st < snd (read_tiles_shape st)"
  shows "(read_j st, read_i st) |\<in>| enqueued (fill_queue st)"
proof -
  let ?key = "(read_j st, read_i st)"
  let ?g = "read_tiles_shape st"
  obtain pend where pend: "fset (enqueued st) = set pend"
    "pend @ remaining_reads st = row_major_from ?g ?key"
    using assms(1) unfolding in_step_def pending_from_cursor_def by blast
  have step: "row_major_from ?g ?key = ?key # row_major_from ?g (read_j st, read_i st + 1)"
    using j i by (rule row_major_from_step)
  show ?thesis
  proof (cases pend)
    case Nil
    then have r: "remaining_reads st = ?key # row_major_from ?g (read_j st, read_i st + 1)"
      using pend(2) step by simp
    have e: "enqueued st = {||}" using pend(1) Nil by auto
    have c: "int (fcard (enqueued st)) < num_workers st \<and> 0 < length (remaining_reads st)"
      using assms(1) e r by (simp add: in_step_def fcard_fempty)
    let ?s = "st\<lparr>remaining_reads := tl (remaining_reads st),
                    processes := processes st @ [hd (remaining_reads st)],
                    enqueued := finsert (hd (remaining_reads st)) (enqueued st)\<rparr>"
    have "?key |\<in>| enqueued ?s" by (simp add: r)
    then have "?key |\<in>| enqueued (fill_queue ?s)" using fill_queue_mono [of ?s] by blast
    then show ?thesis by (simp only: fill_queue_step [OF c])
  next
    case (Cons x pend')
    then have "x = ?key" using pend(2) step by simp
    then have "?key |\<in>| enqueued st" using pend(1) Cons by auto
    then show ?thesis using fill_queue_mono [of st] by blast
  qed
qed

lemma next_tile_returns:
  assumes "in_step st" and "fair (nat (num_workers st)) sched"
  shows "(fst (yield_tile_shape st) \<le> yield_j (advance st)
            \<longrightarrow> fst (next_tile st sched) = StopIteration)
       \<and> (yield_j (advance st) < fst (yield_tile_shape st)
            \<longrightarrow> (\<exists>t. fst (next_tile st sched) = Tile t))
       \<and> in_step (snd (next_tile st sched))
       \<and> num_workers (snd (next_tile st sched)) = num_workers st"
proof -
  let ?a = "advance st"
  let ?f = "fill_queue ?a"
  have ia: "in_step ?a" using assms(1) by (rule in_step_advance)
  have ifq: "in_step ?f" using ia by (rule in_step_fill_queue)
  have la: "lockstep ?a" using ia by (simp add: in_step_def)
  have cols: "0 < snd (read_tiles_shape st)" and nw: "0 < num_workers st"
    using assms(1) by (simp_all add: in_step_def)
  show ?thesis
  proof (cases "fst (yield_tile_shape ?a) \<le> yield_j ?a")
    case True
    then have "next_tile st sched = (StopIteration, ?a)"
      by (simp add: next_tile_def Let_def)
    then show ?thesis using True ia by (simp add: advance_frame)
  next
    case False
    then have nt: "next_tile st sched = next_loop ?f sched"
      by (simp add: next_tile_def Let_def)
    have j: "read_j ?a < fst (read_tiles_shape ?a)"
      using False la by (simp add: lockstep_def)
    have i: "read_i ?a < snd (read_tiles_shape ?a)"
      using advance_read_cursor(2) [OF cols] by (simp add: advance_frame)
    have key: "(read_j ?f, read_i ?f) |\<in>| enqueued ?f"
      using cursor_enqueued_after_fill [OF ia j i] by (simp add: fill_queue_frame)
    have "int (length (processes ?f)) \<le> int (fcard (enqueued ?f))"
      using processes_bounded [of ?f] ifq by (simp add: in_step_def)
    also have "\<dots> \<le> num_workers ?f" using ifq by (simp add: in_step_def)
    finally have "length (processes ?f) \<le> nat (num_workers st)"
      by (simp add: fill_queue_frame advance_frame)
    then have len: "length (processes ?f) \<le> length sched"
      using assms(2) by (simp add: fair_def)
    have ne: "sched \<noteq> []" using assms(2) nw by (auto simp: fair_def)
    have "\<exists>t st'. next_loop ?f sched = (Tile t, st') \<and> in_step st'
           \<and> read_j st' = read_j ?f \<and> read_i st' = read_i ?f + 1
           \<and> read_tiles_shape st' = read_tiles_shape ?f \<and> num_workers st' = num_workers ?f"
    proof (rule next_loop_returns [OF ifq _ _ key fill_queue_full _ len ne])
      show "read_j ?f < fst (read_tiles_shape ?f)" using j by (simp add: fill_queue_frame)
      show "read_i ?f < snd (read_tiles_shape ?f)" using i by (simp add: fill_queue_frame)
      show "[] \<notin> set sched" using assms(2) by (simp add: fair_def)
    qed
    then show ?thesis
      using False by (auto simp: nt fill_queue_frame advance_frame)
  qed
qed

lemma iterate_completes:
  assumes "in_step st" and "\<forall>sched \<in> set scheds. fair (nat (num_workers st)) sched"
    and "length (row_major_from (yield_tile_shape st) (yield_j st, yield_i st)) < length scheds"
  shows "fst (snd (iterate st scheds)) = Some StopIteration"
  using assms
proof (induction scheds arbitrary: st)
  case Nil
  then show ?case by simp
next
  case (Cons sched scheds)
  let ?g = "yield_tile_shape st"
  obtain o1 st1 where n: "next_tile st sched = (o1, st1)" by (cases "next_tile st sched")
  have f: "fair (nat (num_workers st)) sched" using Cons.prems(2) by simp
  have cols: "0 < snd ?g" using Cons.prems(1) by (auto simp: in_step_def lockstep_def)
  note r = next_tile_returns [OF Cons.prems(1) f, unfolded n fst_conv snd_conv]
  note yc = next_tile_yield_cursor [OF n cols]
  show ?case
  proof (cases "fst ?g \<le> yield_j (advance st)")
    case True
    then have "o1 = StopIteration" using r by simp
    then show ?thesis using n by simp
  next
    case False
    then obtain t where t: "o1 = Tile t" using r by auto
    have g1: "yield_tile_shape st1 = ?g" using yc by simp
    have "row_major_from ?g (yield_j st, yield_i st)
        = (yield_j st1, yield_i st1 - 1) # row_major_from ?g (yield_j st1, yield_i st1)"
      using yc t by blast
    then have len: "length (row_major_from (yield_tile_shape st1) (yield_j st1, yield_i st1))
        < length scheds"
      using Cons.prems(3) by (simp add: g1)
    have "fst (snd (iterate st1 scheds)) = Some StopIteration"
    proof (rule Cons.IH [OF _ _ len])
      show "in_step st1" using r by simp
      show "\<forall>sched \<in> set scheds. fair (nat (num_workers st1)) sched"
        using Cons.prems(2) r by simp
    qed
    then show ?thesis using n t by (auto split: prod.splits)
  qed
qed

lemma default_workers_positive:
  assumes "case nw of None \<Rightarrow> True | Some n \<Rightarrow> 0 \<le> n"
  shows "0 < default_workers nw cpu"
  using assms by (auto simp: default_workers_def Let_def split: option.splits)

lemma ceiling_quotient_positive:
  assumes "0 < n" and "0 < b"
  shows "0 < \<lceil>real n / real_of_int b\<rceil>"
proof -
  have "0 < real n / real_of_int b" using assms by simp
  then show ?thesis by linarith
qed

lemma init_in_step:
  assumes "init rdr rts yts nw None vb cpu = Inr st0"
    and "0 < fst rts" and "0 < fst (snd (rshape rdr))"
    and "case nw of None \<Rightarrow> True | Some n \<Rightarrow> 0 \<le> n"
    and "always_reads rdr"
  shows "in_step (iter st0)"
proof -
  obtain H W C where shp: "rshape rdr = (H, W, C)" by (cases "rshape rdr") auto
  have W: "0 < W" using assms(3) shp by simp
  note inv = init_invariants [OF assms(1)]
  have same: "(case yts of None \<Rightarrow> rts | Some y \<Rightarrow> y) = rts"
    using assms(1) by (auto simp: init_def Let_def split: sum.splits if_splits)
  have grids: "tiles_shape (H, W, C) rts = Inr (read_tiles_shape st0)"
    "tiles_shape (H, W, C) rts = Inr (yield_tile_shape st0)"
    using init_grids [OF assms(1)] same shp by simp_all
  have "read_tiles_shape st0
      = (\<lceil>real H / real_of_int (snd rts)\<rceil>, \<lceil>real W / real_of_int (fst rts)\<rceil>)"
    using grids(1) by (simp add: tiles_shape_eq split: if_splits)
  then have cols: "0 < snd (read_tiles_shape st0)"
    using ceiling_quotient_positive [OF W assms(2)] by simp
  have fields: "intermediate st0 = None" "read_j st0 = 0" "read_i st0 = 0"
    "yield_j st0 = 0" "yield_i st0 = 0" "queue st0 = []" "reordering_dict st0 = Map.empty"
    "remaining_reads st0 = row_major (read_tiles_shape st0)"
    using assms(1)
    by (auto simp: init_def Let_def ndindex_def split: sum.splits if_splits)
  have it: "iter st0 = st0" by (simp add: iter_def fields)
  have 1: "lockstep st0" using grids by (simp add: lockstep_def fields)
  have 4: "pending_from_cursor st0"
    unfolding pending_from_cursor_def
    by (simp add: inv fields row_major_from_origin)
  show ?thesis
    unfolding it in_step_def
    using 1 inv(1,2) 4 cols assms(5) default_workers_positive [OF assms(4), of cpu]
    by (simp add: inv fcard_fempty)
qed

section \<open>Further facts about \<^verbatim>\<open>__next__\<close> and \<^verbatim>\<open>__init__\<close>\<close>

lemma intermediate_reachable:
  assumes "reachable st0 st" and "intermediate st0 = None"
  shows "intermediate st = None"
  using assms(1)
proof (induction rule: reachable.induct)
  case start
  show ?case by (rule assms(2))
next
  case (iter st)
  then show ?case by (simp add: iter_def)
next
  case (advance st)
  then show ?case by (simp add: advance_frame)
next
  case (fill_queue st)
  then show ?case by (simp add: fill_queue_frame)
next
  case (worker_finishes st n)
  then show ?case by (simp add: worker_finishes_frame)
next
  case (empty_queue st)
  then show ?case by (simp add: empty_queue_def)
next
  case (take_read_on st st')
  then show ?case
    by (auto simp: take_read_def Let_def split: option.splits if_splits)
next
  case (take_read_out st out st')
  then show ?case
    by (auto simp: take_read_def Let_def split: option.splits if_splits)
next
  case (yield_window_on st st')
  then show ?case using yield_window_frame [of st st'] by auto
next
  case (yield_window_out st out st')
  then show ?case using yield_window_frame [of st st' out] by auto
qed

lemma take_read_None:
  assumes "intermediate st = None" and "dispatch_inv st"
  shows "(take_read st = Inr st \<and> reordering_dict st (read_j st, read_i st) = None)
       \<or> (\<exists>t st'. take_read st = Inl (Tile t, st')
              \<and> reordering_dict st (read_j st, read_i st) = Some t)"
proof (cases "reordering_dict st (read_j st, read_i st)")
  case None
  then show ?thesis by (simp add: take_read_def)
next
  case (Some t)
  then have "(read_j st, read_i st) \<in> fset (enqueued st)"
    using assms(2) unfolding dispatch_inv_def placed_once_def by blast
  then show ?thesis using Some assms(1) by (simp add: take_read_def Let_def)
qed

lemma next_loop_never_raises:
  assumes "intermediate st = None" and "dispatch_inv st"
  shows "fst (next_loop st sched) \<noteq> Raised e"
  using assms
proof (induction sched arbitrary: st)
  case Nil
  show ?case by simp
next
  case (Cons finished sched)
  let ?sb = "empty_queue (fold worker_finishes finished st)"
  have ib: "intermediate ?sb = None"
    using Cons.prems(1) by (simp add: empty_queue_def workers_finish_frame)
  have db: "dispatch_inv ?sb"
    using Cons.prems(2) by (simp add: dispatch_workers_finish dispatch_empty_queue)
  from take_read_None [OF ib db] show ?case
  proof (elim disjE conjE exE)
    assume tr: "take_read ?sb = Inr ?sb"
    have "intermediate (fill_queue ?sb) = None" using ib by (simp add: fill_queue_frame)
    moreover have "dispatch_inv (fill_queue ?sb)" using db by (rule dispatch_fill_queue)
    ultimately have "fst (next_loop (fill_queue ?sb) sched) \<noteq> Raised e" by (rule Cons.IH)
    then show ?thesis using tr yield_window_None [OF ib] by simp
  next
    fix t st' assume "take_read ?sb = Inl (Tile t, st')"
    then show ?thesis by simp
  qed
qed

lemma next_loop_waits:
  assumes "intermediate st = None" and "results_inv st"
    and "getitem (reader st) (tile_index (read_tile_size st) (read_j st, read_i st)) = Inl e"
  shows "fst (next_loop st sched) = Polling"
  using assms
proof (induction sched arbitrary: st)
  case Nil
  show ?case by simp
next
  case (Cons finished sched)
  let ?sb = "empty_queue (fold worker_finishes finished st)"
  have fr: "reader ?sb = reader st" "read_tile_size ?sb = read_tile_size st"
    "read_j ?sb = read_j st" "read_i ?sb = read_i st"
    by (simp_all add: empty_queue_def workers_finish_frame)
  have ib: "intermediate ?sb = None"
    using Cons.prems(1) by (simp add: empty_queue_def workers_finish_frame)
  have rb: "results_inv ?sb"
    using Cons.prems(2) by (simp add: results_workers_finish results_empty_queue)
  have "reordering_dict ?sb (read_j ?sb, read_i ?sb) = None"
  proof (cases "reordering_dict ?sb (read_j ?sb, read_i ?sb)")
    case None
    then show ?thesis .
  next
    case (Some t)
    then have "getitem (reader ?sb) (tile_index (read_tile_size ?sb) (read_j ?sb, read_i ?sb)) = Inr t"
      using rb unfolding results_inv_def by blast
    then show ?thesis using Cons.prems(3) by (simp add: fr)
  qed
  then have tr: "take_read ?sb = Inr ?sb" by (simp add: take_read_def)
  have "fst (next_loop (fill_queue ?sb) sched) = Polling"
  proof (rule Cons.IH)
    show "intermediate (fill_queue ?sb) = None" using ib by (simp add: fill_queue_frame)
    show "results_inv (fill_queue ?sb)"
      using rb results_inv_cong [of "fill_queue ?sb" ?sb] by (simp add: fill_queue_frame)
    show "getitem (reader (fill_queue ?sb))
        (tile_index (read_tile_size (fill_queue ?sb))
          (read_j (fill_queue ?sb), read_i (fill_queue ?sb))) = Inl e"
      using Cons.prems(3) by (simp add: fill_queue_frame fr)
  qed
  then show ?case using tr yield_window_None [OF ib] by simp
qed

lemma count_nonzero_positive:
  "(0 < count_nonzero a) = (\<exists>s \<in> set (concat (concat a)). s \<noteq> 0)"
  by (simp add: count_nonzero_def filter_empty_conv)

lemma init_fields:
  assumes "init rdr rts yts nw im vb cpu = Inr st0"
  shows "yield_tile_size st0 = (case yts of None \<Rightarrow> rts | Some y \<Rightarrow> y)"
    and "yield_j st0 = 0" and "yield_i st0 = 0" and "read_j st0 = 0" and "read_i st0 = 0"
    and "intermediate st0 = im" and "shape st0 = rshape rdr"
  using assms
  by (auto simp: init_def Let_def split: sum.splits if_splits)

lemma init_lockstep:
  assumes "init rdr rts yts nw None vb cpu = Inr st0"
  shows "lockstep st0" and "yield_tile_size st0 = rts"
proof -
  have same: "(case yts of None \<Rightarrow> rts | Some y \<Rightarrow> y) = rts"
    using assms by (auto simp: init_def Let_def split: sum.splits if_splits)
  have "Inr (read_tiles_shape st0) = (Inr (yield_tile_shape st0) :: error + int \<times> int)"
    using init_grids [OF assms] same by simp
  then show "lockstep st0"
    by (simp add: lockstep_def init_fields [OF assms])
  show "yield_tile_size st0 = rts"
    using init_fields(1) [OF assms] same by simp
qed

lemma init_yield_columns:
  assumes "init rdr rts yts nw im vb cpu = Inr st0"
    and "0 < fst (yield_tile_size st0)" and "0 < fst (snd (rshape rdr))"
  shows "0 < snd (yield_tile_shape st0)"
proof -
  obtain H W C where shp: "rshape rdr = (H, W, C)" by (cases "rshape rdr") auto
  have W: "0 < W" using assms(3) shp by simp
  have "tiles_shape (H, W, C) (yield_tile_size st0) = Inr (yield_tile_shape st0)"
    using init_grids(2) [OF assms(1)] init_fields(1) [OF assms(1)] shp by simp
  then have "yield_tile_shape st0
      = (\<lceil>real H / real_of_int (snd (yield_tile_size st0))\<rceil>,
         \<lceil>real W / real_of_int (fst (yield_tile_size st0))\<rceil>)"
    by (simp add: tiles_shape_eq split: if_splits)
  then show ?thesis using ceiling_quotient_positive [OF W assms(2)] by simp
qed

lemma always_reads_TIFFReader: "always_reads (TIFFReader a)"
  by (simp add: always_reads_def TIFFReader_def)

lemma init_projr:
  assumes "0 < fst rts" and "0 < snd rts"
  shows "init rdr rts None nw im vb cpu = Inr (projr (init rdr rts None nw im vb cpu))"
proof -
  have "\<exists>st. init rdr rts None nw im vb cpu = Inr st"
    using init_positive [OF assms assms, of None rdr nw im vb cpu] by (simp add: Let_def)
  then show ?thesis by auto
qed

lemma init_example:
  "init (TIFFReader [[[1], [2]]]) (1, 1) None (Some 2) None False None
     = Inr (projr (init (TIFFReader [[[1], [2]]]) (1, 1) None (Some 2) None False None))"
proof -
  have "\<exists>st. init (TIFFReader [[[1], [2]]]) (1, 1) None (Some 2) None False None = Inr st"
    using init_positive [of "(1, 1)" "(1, 1)" None "TIFFReader [[[1], [2]]]" "Some 2" None False None]
    by (simp add: Let_def)
  then show ?thesis by auto
qed

section \<open>Reassembling the yielded tiles\<close>

lemma slice_list_nonneg:
  assumes "0 \<le> a" and "a \<le> b"
  shows "slice_list (a, b) xs = take (nat b - nat a) (drop (nat a) xs)"
proof -
  have "clip_bound (length xs) a = min (nat a) (length xs)"
    "clip_bound (length xs) b = min (nat b) (length xs)"
    using assms by (auto simp: clip_bound_def)
  then show ?thesis
    by (cases "nat a \<le> length xs") (auto simp: slice_list_def Let_def min_def)
qed

lemma windows_cover:
  assumes "0 < s" and "length xs \<le> n * s"
  shows "concat (map (\<lambda>i. take s (drop (i * s) xs)) [0..<n]) = xs"
  using assms(2)
proof (induction n arbitrary: xs)
  case 0
  then show ?case by simp
next
  case (Suc n)
  have "concat (map (\<lambda>i. take s (drop (i * s) xs)) [0..<Suc n])
      = take s xs @ concat (map (\<lambda>i. take s (drop (Suc i * s) xs)) [0..<n])"
    by (simp only: upt_conv_Cons [of 0 "Suc n"] map_Suc_upt [symmetric]) (simp add: comp_def)
  also have "concat (map (\<lambda>i. take s (drop (Suc i * s) xs)) [0..<n])
      = concat (map (\<lambda>i. take s (drop (i * s) (drop s xs))) [0..<n])"
    by (simp add: add.commute)
  also have "\<dots> = drop s xs"
    using Suc.prems by (intro Suc.IH) simp
  finally show ?case by simp
qed

lemma upto_as_upt: "0 \<le> n \<Longrightarrow> [0..n - 1] = map int [0..<nat n]"
proof (induction "nat n" arbitrary: n)
  case 0
  then show ?case by simp
next
  case (Suc k)
  then have n: "n = int k + 1" by linarith
  have "[0..int k + 1 - 1] = [0..int k - 1] @ [int k]"
    using upto_rec2 [of 0 "int k"] by simp
  also have "[0..int k - 1] = map int [0..<nat (int k)]"
    using Suc.hyps(1) [of "int k"] by simp
  finally have "[0..int k + 1 - 1] = map int [0..<k] @ [int k]" by simp
  moreover have "nat (int k + 1) = Suc k" by linarith
  ultimately show ?case unfolding n by simp
qed

lemma chunks_concat:
  assumes "0 < n" and "\<forall>x \<in> set xss. length x = n"
  shows "chunks n (concat xss) = xss"
  using assms(2)
proof (induction xss)
  case Nil
  show ?case by simp
next
  case (Cons x xss)
  have len: "length x = n" using Cons.prems by simp
  then obtain y ys where x: "x = y # ys" using assms(1) by (cases x) auto
  have e: "x @ concat xss = y # (ys @ concat xss)" by (simp add: x)
  have "chunks n (x @ concat xss)
      = take n (x @ concat xss) # chunks n (drop n (x @ concat xss))"
    unfolding e using assms(1) by simp
  moreover have "take n (x @ concat xss) = x" using len by simp
  moreover have "drop n (x @ concat xss) = concat xss" using len by simp
  moreover have "chunks n (concat xss) = xss" using Cons.prems by (intro Cons.IH) simp
  ultimately show ?case by simp
qed

lemma map2_append_same:
  "map2 (@) (map f B) (map g B) = map (\<lambda>r. f r @ g r) B"
  by (induction B) simp_all

lemma hstack_columns:
  assumes "cs \<noteq> []"
  shows "hstack (map (\<lambda>i. map (g i) B) cs) = map (\<lambda>r. concat (map (\<lambda>i. g i r) cs)) B"
  using assms
proof (induction cs)
  case Nil
  then show ?case by simp
next
  case (Cons c cs)
  show ?case
  proof (cases cs)
    case Nil
    then show ?thesis by simp
  next
    case (Cons d ds)
    then have ne: "cs \<noteq> []" by simp
    have "hstack (map (\<lambda>i. map (g i) B) (c # cs))
        = map2 (@) (map (g c) B) (hstack (map (\<lambda>i. map (g i) B) cs))"
      by (simp add: Cons)
    also have "\<dots> = map2 (@) (map (g c) B) (map (\<lambda>r. concat (map (\<lambda>i. g i r) cs)) B)"
      by (simp only: Cons.IH [OF ne])
    also have "\<dots> = map (\<lambda>r. g c r @ concat (map (\<lambda>i. g i r) cs)) B"
      by (rule map2_append_same)
    finally show ?thesis by simp
  qed
qed

lemma reassemble_windows:
  assumes "0 < w" and "0 < h" and "0 < C"
    and "length img \<le> R * h" and "\<forall>r \<in> set img. length r \<le> C * w"
  shows "reassemble C
           (concat (map (\<lambda>j. map (\<lambda>i. map (\<lambda>r. take w (drop (i * w) r))
                                        (take h (drop (j * h) img))) [0..<C]) [0..<R]))
         = img"
proof -
  let ?band = "\<lambda>j. take h (drop (j * h) img)"
  let ?row = "\<lambda>j. map (\<lambda>i. map (\<lambda>r. take w (drop (i * w) r)) (?band j)) [0..<C]"
  have cs: "[0..<C] \<noteq> []" using assms(3) by simp
  have band: "hstack (?row j) = ?band j" for j
  proof -
    have "hstack (?row j)
        = map (\<lambda>r. concat (map (\<lambda>i. take w (drop (i * w) r)) [0..<C])) (?band j)"
      by (rule hstack_columns [OF cs])
    also have "\<dots> = map (\<lambda>r. r) (?band j)"
    proof (rule map_cong [OF refl])
      fix r assume "r \<in> set (?band j)"
      then have "r \<in> set img" by (meson in_set_dropD in_set_takeD)
      then have "length r \<le> C * w" using assms(5) by blast
      then show "concat (map (\<lambda>i. take w (drop (i * w) r)) [0..<C]) = r"
        by (rule windows_cover [OF assms(1)])
    qed
    finally show ?thesis by simp
  qed
  have "chunks C (concat (map ?row [0..<R])) = map ?row [0..<R]"
    by (rule chunks_concat [OF assms(3)]) simp
  then have "reassemble C (concat (map ?row [0..<R])) = concat (map (\<lambda>j. hstack (?row j)) [0..<R])"
    by (simp add: reassemble_def comp_def)
  also have "\<dots> = concat (map ?band [0..<R])" by (simp only: band)
  also have "\<dots> = img" by (rule windows_cover [OF assms(2,4)])
  finally show ?thesis .
qed

lemma map_product:
  "map f (List.product xs ys) = concat (map (\<lambda>x. map (\<lambda>y. f (x, y)) ys) xs)"
  by (induction xs) (simp_all add: comp_def)

lemma window_as_take_drop:
  "numpy_getitem img (tile_index (int w, int h) (int j, int i))
     = map (\<lambda>r. take w (drop (i * w) r)) (take h (drop (j * h) img))"
proof -
  have a: "slice_list (int j * int h, (int j + 1) * int h) img = take h (drop (j * h) img)"
  proof -
    have "slice_list (int j * int h, (int j + 1) * int h) img
        = take (nat ((int j + 1) * int h) - nat (int j * int h)) (drop (nat (int j * int h)) img)"
      by (rule slice_list_nonneg) (simp_all add: algebra_simps)
    moreover have "nat (int j * int h) = j * h" by (simp add: nat_mult_distrib)
    moreover have "nat ((int j + 1) * int h) = j * h + h"
      by (simp add: nat_mult_distrib nat_add_distrib algebra_simps)
    ultimately show ?thesis by simp
  qed
  have b: "slice_list (int i * int w, (int i + 1) * int w) r = take w (drop (i * w) r)" for r :: "nat list list"
  proof -
    have "slice_list (int i * int w, (int i + 1) * int w) r
        = take (nat ((int i + 1) * int w) - nat (int i * int w)) (drop (nat (int i * int w)) r)"
      by (rule slice_list_nonneg) (simp_all add: algebra_simps)
    moreover have "nat (int i * int w) = i * w" by (simp add: nat_mult_distrib)
    moreover have "nat ((int i + 1) * int w) = i * w + w"
      by (simp add: nat_mult_distrib nat_add_distrib algebra_simps)
    ultimately show ?thesis by simp
  qed
  show ?thesis by (simp add: numpy_getitem_def tile_index_def a b)
qed

lemma reassemble_row_major:
  assumes "0 < w" and "0 < h" and "0 < C"
    and "length img \<le> R * h" and "\<forall>r \<in> set img. length r \<le> C * w"
  shows "reassemble C (map (\<lambda>c. numpy_getitem img (tile_index (int w, int h) c))
                          (row_major (int R, int C))) = img"
proof -
  have "map (\<lambda>c. numpy_getitem img (tile_index (int w, int h) c)) (row_major (int R, int C))
      = concat (map (\<lambda>j. map (\<lambda>i. numpy_getitem img (tile_index (int w, int h) (int j, int i)))
                               [0..<C]) [0..<R])"
    by (simp add: row_major_def upto_as_upt map_product comp_def)
  also have "\<dots> = concat (map (\<lambda>j. map (\<lambda>i. map (\<lambda>r. take w (drop (i * w) r))
                                        (take h (drop (j * h) img))) [0..<C]) [0..<R])"
    by (simp only: window_as_take_drop)
  finally show ?thesis using reassemble_windows [OF assms] by simp
qed

lemma rshape_TIFFReader:
  assumes "img \<noteq> []"
  shows "fst (rshape (TIFFReader img)) = length img"
    and "fst (snd (rshape (TIFFReader img))) = length (hd img)"
  using assms by (cases img; simp add: TIFFReader_def array_shape_def)+

text \<open>
  The iteration without intermediate reproduces the source: for a \<^verbatim>\<open>TIFFReader\<close> over a
  rectangular, non-empty pixel array and a tile size of positive width and height, the
  tiles yielded up to \<^verbatim>\<open>StopIteration\<close> reassemble to the array, whatever the order in
  which the workers complete and whether or not the frame is a multiple of the tile; and
  under fair schedules the iteration does reach \<^verbatim>\<open>StopIteration\<close>.
\<close>

theorem round_trip_without_intermediate:
  assumes "init (TIFFReader img) rts yts nw None vb cpu = Inr st0"
    and "0 < fst rts" and "0 < snd rts"
    and "img \<noteq> []" and "hd img \<noteq> []" and "\<forall>r \<in> set img. length r = length (hd img)"
    and "iterate (iter st0) scheds = (ys, out, st)"
  shows "(out = Some StopIteration \<longrightarrow>
            reassemble (nat (snd (yield_tile_shape st0))) (map snd ys) = img)
       \<and> ((case nw of None \<Rightarrow> True | Some n \<Rightarrow> 0 \<le> n)
            \<and> (\<forall>sched \<in> set scheds. fair (nat (num_workers st0)) sched)
            \<and> length (row_major (yield_tile_shape st0)) < length scheds
          \<longrightarrow> out = Some StopIteration)"
proof -
  let ?R = "TIFFReader img"
  let ?g = "yield_tile_shape st0"
  let ?H = "length img" and ?W = "length (hd img)"
  obtain w h where wh: "fst rts = int w" "snd rts = int h" "0 < w" "0 < h"
    using assms(2,3) by (metis nat_0_less_mult_iff nat_int pos_int_cases zero_less_nat_eq mult.right_neutral)
  have rts: "rts = (int w, int h)" using wh by (cases rts) simp
  note f = init_fields [OF assms(1)]
  note inv = init_invariants [OF assms(1)]
  note ls = init_lockstep [OF assms(1)]
  have it: "iter st0 = st0" by (simp add: iter_def f)
  have run: "iterate st0 scheds = (ys, out, st)" using assms(7) by (simp only: it)
  have W: "0 < fst (snd (rshape ?R))" using assms(4,5) by (simp add: rshape_TIFFReader)
  have yw: "0 < fst (yield_tile_size st0)" using assms(2) ls(2) by simp
  have cols: "0 < snd ?g" using assms(1) yw W by (rule init_yield_columns)
  have shp: "rshape ?R = (?H, ?W, snd (snd (rshape ?R)))"
    using rshape_TIFFReader [OF assms(4)] by (metis prod.collapse)
  have ts: "tiles_shape (?H, ?W, snd (snd (rshape ?R))) rts = Inr ?g"
    using init_grids(2) [OF assms(1)] f(1) ls(2) shp by simp
  obtain rows where r: "ceil_div (int ?H) (snd rts) = Inr rows" "int ?H \<le> rows * snd rts"
    using ceil_div_positive [OF assms(3), of "int ?H"] by blast
  obtain cl where c: "ceil_div (int ?W) (fst rts) = Inr cl" "int ?W \<le> cl * fst rts"
    using ceil_div_positive [OF assms(2), of "int ?W"] by blast
  have g: "?g = (rows, cl)" using ts r(1) c(1) by (simp add: tiles_shape_def)
  have cl: "0 < cl" using cols g by simp
  have rows: "0 \<le> rows"
  proof (rule ccontr)
    assume "\<not> 0 \<le> rows"
    then have "rows * snd rts < 0" using assms(3) by (simp add: mult_neg_pos)
    then show False using r(2) by simp
  qed
  have g': "?g = (int (nat rows), int (nat cl))" using g rows cl by simp
  have b1: "?H \<le> nat rows * h"
  proof -
    have "int ?H \<le> int (nat rows * h)" using r(2) rows wh(2) by simp
    then show ?thesis by (simp only: of_nat_le_iff)
  qed
  have b2: "\<forall>r \<in> set img. length r \<le> nat cl * w"
  proof -
    have "int ?W \<le> int (nat cl * w)" using c(2) cl wh(1) by simp
    then have "?W \<le> nat cl * w" by (simp only: of_nat_le_iff)
    then show ?thesis using assms(6) by simp
  qed
  have 1: "reassemble (nat (snd ?g)) (map snd ys) = img" if "out = Some StopIteration"
  proof -
    have m: "map fst ys = row_major ?g"
      using iterate_order [OF run cols] that by (simp add: f row_major_from_origin)
    have "\<forall>y \<in> set ys. getitem ?R (tile_index rts (fst y)) = Inr (snd y)"
      using iterate_content [OF run ls(1) inv(2)] by (simp add: inv)
    then have "\<forall>y \<in> set ys. snd y = numpy_getitem img (tile_index rts (fst y))"
      by (simp add: TIFFReader_def)
    then have "map snd ys = map (\<lambda>c. numpy_getitem img (tile_index rts c)) (map fst ys)"
      by (simp add: comp_def)
    then have "map snd ys
        = map (\<lambda>c. numpy_getitem img (tile_index (int w, int h) c))
            (row_major (int (nat rows), int (nat cl)))"
      using m g' rts by simp
    moreover have "0 < nat cl" using cl by simp
    ultimately show ?thesis
      using reassemble_row_major [OF wh(3,4) _ b1 b2] g by simp
  qed
  have 2: "out = Some StopIteration"
    if "case nw of None \<Rightarrow> True | Some n \<Rightarrow> 0 \<le> n"
      "\<forall>sched \<in> set scheds. fair (nat (num_workers st0)) sched"
      "length (row_major ?g) < length scheds"
  proof -
    have "in_step (iter st0)"
      using assms(1,2) W that(1) always_reads_TIFFReader by (rule init_in_step)
    then have ins: "in_step st0" by (simp only: it)
    have len: "length (row_major_from ?g (yield_j st0, yield_i st0)) < length scheds"
      using that(3) by (simp add: f row_major_from_origin)
    from iterate_completes [OF ins that(2) len] show ?thesis by (simp add: run)
  qed
  show ?thesis using 1 2 by blast
qed

section \<open>The iteration: order, content, failures and bounds\<close>



text \<open>
  Claim C2, at an input where the code fails it (without an intermediate the claim
  holds: \<open>round_trip_without_intermediate\<close>). A frame of 1 x 2 pixels, both samples 1,
  read in tiles of 1 x 1 and yielded in tiles of width 2 through an intermediate of zeros.
  The only window is yielded as soon as the first read tile is written: the iteration
  yields the tile \<open>[[[1], [0]]]\<close> and ends, while the source window is \<open>[[[1], [1]]]\<close>.
\<close>

theorem partly_written_window_is_yielded:
  "fst (iterate
     (iter (projr (init (TIFFReader [[[1], [1]]]) (1, 1) (Some (2, 1)) (Some 1)
        (Some [[[0], [0]]]) False None)))
     [[[0]], []]) = [((0, 0), [[[1], [0]]])]
   \<and> fst (snd (iterate
     (iter (projr (init (TIFFReader [[[1], [1]]]) (1, 1) (Some (2, 1)) (Some 1)
        (Some [[[0], [0]]]) False None)))
     [[[0]], []])) = Some StopIteration
   \<and> getitem (TIFFReader [[[1], [1]]]) (tile_index (2, 1) (0, 0)) = Inr [[[1], [1]]]"
  by (intro conjI; code_simp)

text \<open>
  Claim C3, as the code has it. With an intermediate, the window of the intermediate at
  the yield cursor is returned, and the yield cursor advanced, if and only if at least
  one sample of the window is non-zero (\<^verbatim>\<open>np.count_nonzero(tile) > 0\<close>, line 230);
  a window whose samples are all zero is not yielded in that round.
\<close>

theorem window_is_yielded_iff_some_sample_is_nonzero:
  assumes "intermediate st = Some store"
  shows "yield_window st =
     (if \<exists>s \<in> set (concat (concat
             (numpy_getitem store (tile_index (yield_tile_size st) (yield_j st, yield_i st))))).
           s \<noteq> 0
      then Inl (Tile (numpy_getitem store (tile_index (yield_tile_size st) (yield_j st, yield_i st))),
                st\<lparr>yield_i := yield_i st + 1\<rparr>)
      else Inr st)"
  using assms
  by (simp add: yield_window_def Let_def count_nonzero_positive)

theorem window_is_yielded_iff_some_sample_is_nonzero_witness:
  "yield_window
     (projr (init (TIFFReader [[[7], [0]]]) (2, 1) None (Some 1) (Some [[[7], [0]]]) False None))
   = Inl (Tile [[[7], [0]]],
       (projr (init (TIFFReader [[[7], [0]]]) (2, 1) None (Some 1) (Some [[[7], [0]]]) False None))
         \<lparr>yield_i :=
            yield_i (projr (init (TIFFReader [[[7], [0]]]) (2, 1) None (Some 1)
              (Some [[[7], [0]]]) False None)) + 1\<rparr>)"
proof -
  let ?st = "projr (init (TIFFReader [[[7], [0]]]) (2, 1) None (Some 1) (Some [[[7], [0]]]) False None)"
  have i: "intermediate ?st = Some [[[7], [0]]]" by code_simp
  have w: "numpy_getitem [[[7], [0]]] (tile_index (yield_tile_size ?st) (yield_j ?st, yield_i ?st))
      = [[[7], [0]]]" by code_simp
  have e: "\<exists>s \<in> set (concat (concat [[[7], [0 :: nat]]])). s \<noteq> 0" by simp
  show ?thesis
    using window_is_yielded_iff_some_sample_is_nonzero [OF i]
    unfolding w by (simp only: e if_True)
qed

text \<open>
  A frame of 1 x 2 pixels with the samples 0 and 5, one tile of width 2, an intermediate of
  zeros. The first \<^verbatim>\<open>__next__\<close> writes the tile and yields the window, which holds a zero
  sample.
\<close>

theorem window_with_zero_sample_is_yielded:
  "fst (next_tile
     (projr (init (TIFFReader [[[0], [5]]]) (2, 1) None (Some 1) (Some [[[0], [0]]]) False None))
     [[0]]) = Tile [[[0], [5]]]
   \<and> yield_i (snd (next_tile
     (projr (init (TIFFReader [[[0], [5]]]) (2, 1) None (Some 1) (Some [[[0], [0]]]) False None))
     [[0]])) = 1
   \<and> \<not> (\<forall>s \<in> set (concat (concat [[[0], [5 :: nat]]])). s \<noteq> 0)"
  by (intro conjI; code_simp)

text \<open>
  Claim C4, as the code has it. A fetch that fails is not retried, and its error is not
  raised in the coordinating process: the exception ends the worker process, nothing is
  queued for the coordinate and the coordinate is not read again (third part), and
  draining the queue raises nothing. For an iterator without intermediate, \<^verbatim>\<open>__next__\<close>
  never raises an error, whatever the workers do (first part); and when the read of the
  tile at the read cursor fails, \<^verbatim>\<open>__next__\<close> does not return under any schedule: it
  polls for ever (second part).
\<close>

theorem failed_fetch_is_never_raised:
  assumes "init rdr rts yts nw None vb cpu = Inr st0" and "reachable st0 st"
  shows "(\<forall>err. fst (next_tile st sched) \<noteq> Raised err)
       \<and> (yield_j (advance st) < fst (yield_tile_shape st)
          \<and> getitem rdr (tile_index rts (read_j (advance st), read_i (advance st))) = Inl e
          \<longrightarrow> fst (next_tile st sched) = Polling)
       \<and> (processes st \<noteq> []
          \<and> getitem rdr (tile_index rts (processes st ! (n mod length (processes st)))) = Inl e
          \<longrightarrow> queue (worker_finishes n st) = queue st
            \<and> remaining_reads (worker_finishes n st) = remaining_reads st
            \<and> length (processes (worker_finishes n st)) < length (processes st))"
proof -
  note inv = init_invariants [OF assms(1)]
  have i0: "intermediate st0 = None"
    using assms(1) by (auto simp: init_def Let_def split: sum.splits if_splits)
  let ?f = "fill_queue (advance st)"
  have r: "reachable st0 ?f"
    using assms(2) by (intro reachable.fill_queue reachable.advance)
  have i: "intermediate ?f = None" using intermediate_reachable [OF r i0] .
  have d: "dispatch_inv ?f" using dispatch_reachable [OF r inv(1)] .
  have res: "results_inv ?f" "reader ?f = reader st0" "read_tile_size ?f = read_tile_size st0"
    using results_reachable [OF r inv(2)] by simp_all
  have nt: "fst (next_tile st sched)
      = (if fst (yield_tile_shape st) \<le> yield_j (advance st) then StopIteration
         else fst (next_loop ?f sched))"
    by (simp add: next_tile_def Let_def)
  have 1: "fst (next_tile st sched) \<noteq> Raised err" for err
    using next_loop_never_raises [OF i d, of sched err] by (simp add: nt)
  have 2: "fst (next_tile st sched) = Polling"
    if "yield_j (advance st) < fst (yield_tile_shape st)"
      and "getitem rdr (tile_index rts (read_j (advance st), read_i (advance st))) = Inl e"
  proof -
    have c: "read_j ?f = read_j (advance st)" "read_i ?f = read_i (advance st)"
      by (simp_all add: fill_queue_frame)
    have "getitem (reader ?f) (tile_index (read_tile_size ?f) (read_j ?f, read_i ?f)) = Inl e"
      unfolding res(2,3) inv(6,7) c using that(2) .
    from next_loop_waits [OF i res(1) this] show ?thesis using that(1) by (simp add: nt)
  qed
  have 3: "queue (worker_finishes n st) = queue st
      \<and> remaining_reads (worker_finishes n st) = remaining_reads st
      \<and> length (processes (worker_finishes n st)) < length (processes st)"
    if "processes st \<noteq> []"
      and "getitem rdr (tile_index rts (processes st ! (n mod length (processes st)))) = Inl e"
  proof -
    have rs: "reader st = rdr" "read_tile_size st = rts"
      using results_reachable [OF assms(2) inv(2)] inv(6,7) by simp_all
    have k: "n mod length (processes st) < length (processes st)" using that(1) by simp
    have "queue (worker_finishes n st) = queue st"
      "remaining_reads (worker_finishes n st) = remaining_reads st"
      "length (processes (worker_finishes n st))
         = n mod length (processes st)
           + (length (processes st) - Suc (n mod length (processes st)))"
      using that k by (simp_all add: worker_finishes_def Let_def get_tile_def rs)
    then show ?thesis using k by linarith
  qed
  show ?thesis using 1 2 3 by blast
qed

theorem failed_fetch_is_never_raised_witness:
  "fst (next_tile
     (projr (init \<lparr>rshape = (1, 1, 1), getitem = (\<lambda>index. Inl OSError)\<rparr>
        (1, 1) None (Some 1) None False None)) [[0], [0]]) = Polling"
proof -
  let ?R = "\<lparr>rshape = (1, 1, 1), getitem = (\<lambda>index. Inl OSError)\<rparr>"
  let ?st0 = "projr (init ?R (1, 1) None (Some 1) None False None)"
  have h1: "init ?R (1, 1) None (Some 1) None False None = Inr ?st0"
    by (rule init_projr) simp_all
  note t = failed_fetch_is_never_raised [OF h1 reachable.start, of "[[0], [0]]" OSError]
  have p1: "yield_j (advance ?st0) < fst (yield_tile_shape ?st0)" by code_simp
  have p2: "getitem ?R (tile_index (1, 1) (read_j (advance ?st0), read_i (advance ?st0)))
      = Inl OSError" by simp
  show ?thesis by (rule mp [OF conjunct1 [OF conjunct2 [OF t]] conjI [OF p1 p2]])
qed

text \<open>
  A reader that fails on every read, one tile, one worker. The worker fails in the first
  round; the rounds after it drain the queue and raise nothing: \<^verbatim>\<open>__next__\<close> is still
  polling, with no worker running, nothing queued and nothing left to dispatch.
\<close>

theorem failed_fetch_raises_nothing_on_later_drains:
  "fst (next_tile
     (projr (init \<lparr>rshape = (1, 1, 1), getitem = (\<lambda>index. Inl OSError)\<rparr>
        (1, 1) None (Some 1) None False None)) [[0], [], []]) = Polling
   \<and> processes (snd (next_tile
     (projr (init \<lparr>rshape = (1, 1, 1), getitem = (\<lambda>index. Inl OSError)\<rparr>
        (1, 1) None (Some 1) None False None)) [[0], [], []])) = []
   \<and> queue (snd (next_tile
     (projr (init \<lparr>rshape = (1, 1, 1), getitem = (\<lambda>index. Inl OSError)\<rparr>
        (1, 1) None (Some 1) None False None)) [[0], [], []])) = []
   \<and> remaining_reads (snd (next_tile
     (projr (init \<lparr>rshape = (1, 1, 1), getitem = (\<lambda>index. Inl OSError)\<rparr>
        (1, 1) None (Some 1) None False None)) [[0], [], []])) = []"
  by (intro conjI; code_simp)

text \<open>
  Claim C6, as the code has it. \<^verbatim>\<open>enqueued\<close> is not the set of coordinates that are
  dispatched and not yet completed: a coordinate stays in it until \<^verbatim>\<open>__next__\<close> takes its
  tile out of \<^verbatim>\<open>reordering_dict\<close> (lines 194-195 remove it from both). So at every point
  every key of \<^verbatim>\<open>reordering_dict\<close> is a member of \<^verbatim>\<open>enqueued\<close>. What is disjoint from
  the keys of \<^verbatim>\<open>reordering_dict\<close> are the coordinates of the running workers (dispatched,
  not yet completed), of the queue and of the remaining reads.
\<close>

theorem reordering_keys_stay_enqueued:
  assumes "init rdr rts yts nw im vb cpu = Inr st0" and "reachable st0 st"
  shows "dom (reordering_dict st) \<subseteq> fset (enqueued st)
       \<and> set (processes st) \<subseteq> fset (enqueued st)
       \<and> fst ` set (queue st) \<subseteq> fset (enqueued st)
       \<and> dom (reordering_dict st) \<inter> set (processes st) = {}
       \<and> dom (reordering_dict st) \<inter> fst ` set (queue st) = {}
       \<and> dom (reordering_dict st) \<inter> set (remaining_reads st) = {}
       \<and> set (processes st) \<inter> fst ` set (queue st) = {}
       \<and> set (processes st) \<inter> set (remaining_reads st) = {}"
proof -
  have "dispatch_inv st"
    using dispatch_reachable [OF assms(2)] init_invariants(1) [OF assms(1)] .
  then show ?thesis
    unfolding dispatch_inv_def placed_once_def by auto
qed

theorem reordering_keys_stay_enqueued_witness:
  "dom (reordering_dict (snd (next_tile
      (projr (init (TIFFReader [[[1], [2]]]) (1, 1) None (Some 2) None False None)) [[1]])))
    \<subseteq> fset (enqueued (snd (next_tile
      (projr (init (TIFFReader [[[1], [2]]]) (1, 1) None (Some 2) None False None)) [[1]])))"
proof -
  let ?st0 = "projr (init (TIFFReader [[[1], [2]]]) (1, 1) None (Some 2) None False None)"
  have r: "reachable ?st0 (snd (next_tile ?st0 [[1]]))"
    by (intro reachable_next_tile reachable.start)
  show ?thesis
    by (rule conjunct1 [OF reordering_keys_stay_enqueued [OF init_example r]])
qed

text \<open>
  A frame of 1 x 2 pixels, tiles of 1 x 1, two workers. The worker of tile \<open>(0, 1)\<close>
  finishes first: after the first round of \<^verbatim>\<open>__next__\<close>, which still waits for tile
  \<open>(0, 0)\<close>, the coordinate \<open>(0, 1)\<close> is in \<^verbatim>\<open>enqueued\<close> and a key of
  \<^verbatim>\<open>reordering_dict\<close>.
\<close>

theorem completed_coordinate_is_enqueued_and_in_dict:
  "fst (next_tile
      (projr (init (TIFFReader [[[1], [2]]]) (1, 1) None (Some 2) None False None)) [[1]])
     = Polling
   \<and> (0, 1) |\<in>| enqueued (snd (next_tile
      (projr (init (TIFFReader [[[1], [2]]]) (1, 1) None (Some 2) None False None)) [[1]]))
   \<and> reordering_dict (snd (next_tile
      (projr (init (TIFFReader [[[1], [2]]]) (1, 1) None (Some 2) None False None)) [[1]])) (0, 1)
     = Some [[[2]]]"
  by code_simp

text \<open>
  Claim C7. In every state an iterator reaches from its construction, by any of its
  operations and by workers finishing in any order, the number of coordinates in
  \<^verbatim>\<open>enqueued\<close> is at most \<^verbatim>\<open>num_workers\<close>; the coordinates dispatched to workers and
  not yet completed (the running processes) are among them, so their number is at most
  \<^verbatim>\<open>num_workers\<close> as well. Every operation preserves the bound: it holds in every
  state reached from a state where it holds. The worker count given to the constructor
  is a count: it is not negative (\<^verbatim>\<open>None\<close> and 0 select the default).
\<close>

theorem enqueued_never_exceeds_num_workers:
  assumes "init rdr rts yts nw im vb cpu = Inr st0"
    and "case nw of None \<Rightarrow> True | Some n \<Rightarrow> 0 \<le> n"
    and "reachable st0 st"
  shows "int (fcard (enqueued st)) \<le> num_workers st
       \<and> int (length (processes st)) \<le> num_workers st
       \<and> num_workers st = default_workers nw cpu
       \<and> (\<forall>st'. reachable st st' \<longrightarrow> int (fcard (enqueued st')) \<le> num_workers st')"
proof -
  note inv = init_invariants [OF assms(1)]
  have "int (fcard (enqueued st0)) \<le> num_workers st0"
    using default_workers_positive [OF assms(2), of cpu] by (simp add: inv fcard_fempty)
  from bound_reachable [OF assms(3) this]
  have b: "int (fcard (enqueued st)) \<le> num_workers st" "num_workers st = default_workers nw cpu"
    by (simp_all add: inv)
  have "length (processes st) \<le> fcard (enqueued st)"
    using dispatch_reachable [OF assms(3) inv(1)] by (rule processes_bounded)
  then have p: "int (length (processes st)) \<le> num_workers st" using b(1) by linarith
  have "int (fcard (enqueued st')) \<le> num_workers st'" if "reachable st st'" for st'
    using bound_reachable [OF that b(1)] by simp
  then show ?thesis using b p by blast
qed

theorem enqueued_never_exceeds_num_workers_witness:
  "int (fcard (enqueued (snd (next_tile
      (projr (init (TIFFReader [[[1], [2]]]) (1, 1) None (Some 2) None False None)) [[1]]))))
    \<le> num_workers (snd (next_tile
      (projr (init (TIFFReader [[[1], [2]]]) (1, 1) None (Some 2) None False None)) [[1]]))
   \<and> int (length (processes (snd (next_tile
      (projr (init (TIFFReader [[[1], [2]]]) (1, 1) None (Some 2) None False None)) [[1]]))))
    \<le> num_workers (snd (next_tile
      (projr (init (TIFFReader [[[1], [2]]]) (1, 1) None (Some 2) None False None)) [[1]]))"
proof -
  let ?st0 = "projr (init (TIFFReader [[[1], [2]]]) (1, 1) None (Some 2) None False None)"
  have r: "reachable ?st0 (snd (next_tile ?st0 [[1]]))"
    by (intro reachable_next_tile reachable.start)
  have n: "case Some (2 :: int) of None \<Rightarrow> True | Some n \<Rightarrow> 0 \<le> n" by simp
  note t = enqueued_never_exceeds_num_workers [OF init_example n r]
  show ?thesis
    by (rule conjI [OF conjunct1 [OF t] conjunct1 [OF conjunct2 [OF t]]])
qed

end
